theory Spec2Isabelle
  imports Main
begin

section \<open>Path finder: breadth-first search over an adjacency dictionary\<close>

text \<open>
  Node labels are Python strings. The adjacency dictionary handed to \<open>bfs\<close> is the
  \<open>defaultdict(lambda: set())\<close> built by \<open>compute_route_between\<close>. A dictionary is
  an association list (the first entry of a key is the one that counts); the value of a
  key is the sequence in which the loop \<open>for neighbor in neighbors[curr_node]\<close> meets
  the members of the stored set. Python fixes no iteration order for a set, so every
  theorem about \<open>bfs\<close> is stated for an arbitrary association list, hence for every order.
\<close>

type_synonym label = string

type_synonym adjacency = "(label \<times> label list) list"

text \<open>
  \<open>neighbors[curr_node]\<close> on a \<open>defaultdict\<close>: the stored value, and the empty set
  for a key that is missing. (The missing key is also inserted with the empty set; that
  insertion leaves every later lookup as it was, see \<open>lookup_after_default_insert\<close>,
  and the dictionary is dropped when \<open>bfs\<close> returns.)
\<close>

definition lookup :: "adjacency \<Rightarrow> label \<Rightarrow> label list" where
  "lookup neighbors k = (case map_of neighbors k of None \<Rightarrow> [] | Some ns \<Rightarrow> ns)"

text \<open>
  The inner loop of \<open>bfs\<close>:
  \<^verbatim>\<open>
        for neighbor in neighbors[curr_node]:
            if neighbor not in visited:
                visited.append(neighbor)
                queue.append((neighbor, path + [curr_node]))
  \<close>
  over the list \<open>ns\<close> of neighbours still to come, with the pair of \<open>visited\<close> and
  \<open>queue\<close> as its state.
\<close>

fun scan :: "label list \<Rightarrow> label \<Rightarrow> label list \<Rightarrow>
    label list \<times> (label \<times> label list) list \<Rightarrow> label list \<times> (label \<times> label list) list" where
  "scan [] curr_node path (visited, queue) = (visited, queue)"
| "scan (neighbor # ns) curr_node path (visited, queue) =
     (if neighbor \<notin> set visited
      then scan ns curr_node path (visited @ [neighbor], queue @ [(neighbor, path @ [curr_node])])
      else scan ns curr_node path (visited, queue))"

text \<open>All labels that occur in some neighbour list: the termination argument counts those
  of them that are not yet visited.\<close>

definition targets :: "adjacency \<Rightarrow> label set" where
  "targets neighbors = (\<Union>(k, ns) \<in> set neighbors. set ns)"

lemma finite_targets: "finite (targets neighbors)"
  by (auto simp: targets_def)

lemma map_of_targets: "map_of neighbors k = Some ns \<Longrightarrow> set ns \<subseteq> targets neighbors"
  by (auto simp: targets_def dest: map_of_SomeD)

lemma lookup_targets: "set (lookup neighbors k) \<subseteq> targets neighbors"
proof (cases "map_of neighbors k")
  case None
  then show ?thesis by (simp add: lookup_def)
next
  case (Some ns)
  then show ?thesis using map_of_targets [OF Some] by (simp add: lookup_def)
qed

lemma scan_measure:
  "finite L \<Longrightarrow> set ns \<subseteq> L \<Longrightarrow> scan ns c p (v, q) = (v', q') \<Longrightarrow>
     card (L - set v') + length q' = card (L - set v) + length q"
proof (induction ns arbitrary: v q)
  case Nil
  then show ?case by simp
next
  case (Cons n ns)
  show ?case
  proof (cases "n \<in> set v")
    case True
    with Cons show ?thesis by simp
  next
    case False
    from Cons.prems have nL: "n \<in> L" by simp
    from False Cons.prems
    have step: "scan ns c p (v @ [n], q @ [(n, p @ [c])]) = (v', q')" by simp
    have "card (L - set v') + length q'
        = card (L - set (v @ [n])) + length (q @ [(n, p @ [c])])"
      using Cons.IH [OF Cons.prems(1) _ step] Cons.prems(2) by simp
    moreover have "L - set (v @ [n]) = (L - set v) - {n}" by auto
    moreover have "card (L - set v) = Suc (card ((L - set v) - {n}))"
      using nL False Cons.prems(1) by (intro card.remove) auto
    ultimately show ?thesis by simp
  qed
qed

text \<open>
  The \<open>while queue:\<close> loop of \<open>bfs\<close>, as a recursion on the pair of \<open>visited\<close> and
  \<open>queue\<close>; \<open>queue.pop(0)\<close> takes the head. \<open>None\<close> is Python's \<open>None\<close>.
\<close>

function bfs_loop :: "adjacency \<Rightarrow> label \<Rightarrow> label list \<Rightarrow> (label \<times> label list) list \<Rightarrow>
    label list option" where
  "bfs_loop neighbors end visited [] = None"
| "bfs_loop neighbors end visited ((curr_node, path) # queue) =
     (if curr_node = end then Some (path @ [curr_node])
      else (case scan (lookup neighbors curr_node) curr_node path (visited, queue) of
              (visited', queue') \<Rightarrow> bfs_loop neighbors end visited' queue'))"
  by pat_completeness auto
termination
proof (relation "measure (\<lambda>(neighbors, e, visited, queue).
         card (targets neighbors - set visited) + length queue)", goal_cases)
  case 1
  show ?case by simp
next
  case (2 neighbors e visited curr_node path queue visited' queue')
  from 2 have sc: "scan (lookup neighbors curr_node) curr_node path (visited, queue)
      = (visited', queue')" by simp
  from scan_measure [OF finite_targets lookup_targets sc]
  show ?case by simp
qed

definition bfs :: "adjacency \<Rightarrow> label \<Rightarrow> label \<Rightarrow> label list option" where
  "bfs neighbors start end = bfs_loop neighbors end [start] [(start, [])]"


subsection \<open>What the claims about \<open>bfs\<close> speak of\<close>

text \<open>
  A walk is a non-empty sequence of labels in which every element after the first is a
  neighbour of the element before it; a path between \<open>start\<close> and \<open>end\<close> is a walk
  that begins with the one and ends with the other. A label is present in the dictionary
  when it is a key or a member of some stored neighbour set.
\<close>

fun walk :: "adjacency \<Rightarrow> label list \<Rightarrow> bool" where
  "walk neighbors [] = False"
| "walk neighbors [x] = True"
| "walk neighbors (x # y # rest) = (y \<in> set (lookup neighbors x) \<and> walk neighbors (y # rest))"

definition path_between :: "adjacency \<Rightarrow> label \<Rightarrow> label \<Rightarrow> label list \<Rightarrow> bool" where
  "path_between neighbors start end p = (walk neighbors p \<and> hd p = start \<and> last p = end)"

definition present :: "adjacency \<Rightarrow> label \<Rightarrow> bool" where
  "present neighbors x = (x \<in> fst ` set neighbors \<or> x \<in> targets neighbors)"

text \<open>The labels that \<open>scan\<close> appends: the neighbours not yet visited, each once, in order.\<close>

fun fresh :: "label list \<Rightarrow> label list \<Rightarrow> label list" where
  "fresh visited [] = []"
| "fresh visited (n # ns) =
     (if n \<in> set visited then fresh visited ns else n # fresh (visited @ [n]) ns)"

text \<open>The labels that a walk of at most \<open>k\<close> steps from \<open>start\<close> can end in.\<close>

fun near :: "adjacency \<Rightarrow> label \<Rightarrow> nat \<Rightarrow> label set" where
  "near neighbors start 0 = {start}"
| "near neighbors start (Suc k) =
     near neighbors start k \<union> {y. \<exists>x \<in> near neighbors start k. y \<in> set (lookup neighbors x)}"

text \<open>
  Two invariants of the \<open>while\<close> loop. The first: every queued pair holds a node and the
  walk that led to its predecessor, all of it visited, with no label twice. The second
  (with \<open>k\<close> the level being expanded): a queued node sits at level \<open>k\<close> or \<open>k + 1\<close>, no
  shorter walk reaches it, the queue is ordered by level, everything within \<open>k\<close> steps is
  visited, and a visited node that is no longer queued is not \<open>end\<close> and has had all its
  neighbours visited.
\<close>

definition sound_inv ::
  "adjacency \<Rightarrow> label \<Rightarrow> label list \<Rightarrow> (label \<times> label list) list \<Rightarrow> bool" where
  "sound_inv neighbors start visited queue =
     (\<forall>(n, p) \<in> set queue. set (p @ [n]) \<subseteq> set visited \<and> hd (p @ [n]) = start
        \<and> walk neighbors (p @ [n]) \<and> distinct (p @ [n]))"

definition level_inv ::
  "adjacency \<Rightarrow> label \<Rightarrow> label \<Rightarrow> nat \<Rightarrow> label list \<Rightarrow> (label \<times> label list) list \<Rightarrow> bool" where
  "level_inv neighbors start end k visited queue =
     (start \<in> set visited \<and>
      (\<forall>(n, p) \<in> set queue. n \<in> set visited \<and> k \<le> length p \<and> length p \<le> Suc k
          \<and> (\<forall>j < length p. n \<notin> near neighbors start j)) \<and>
      sorted (map (\<lambda>(n, p). length p) queue) \<and>
      near neighbors start k \<subseteq> set visited \<and>
      (\<forall>x \<in> set visited. x \<in> fst ` set queue
          \<or> (x \<noteq> end \<and> set (lookup neighbors x) \<subseteq> set visited)))"

section \<open>Fetch cache and Data Source\<close>

text \<open>
  The MBTA service is outside the program. A request either raises inside
  \<open>requests.get\<close> (no connection, time-out, ...) or comes back as a response with a
  status code and a body. Of a body the program reads \<open>.json()['data']\<close> and, of each
  record in it, \<open>['id']\<close>, \<open>['attributes']['long_name']\<close> (routes) or
  \<open>['attributes']['name']\<close> (stops). A body is therefore either a list of route
  records, a list of stop records, or malformed (\<open>None\<close>): not JSON, or JSON of another
  shape, on which one of these accessors raises.
\<close>

type_synonym url = string

record route =
  route_id :: string
  long_name :: string

record stop =
  stop_name :: string

datatype payload = Routes "route list" | Stops "stop list"

record response =
  status_code :: nat
  body :: "payload option"

datatype outcome = Failed | Replied response

datatype error = ConnectionError | HTTPError nat | MalformedPayload | ValueError | KeyError

text \<open>
  What the service answers may change with time: a source maps the URL and the number of
  requests made before this one to the outcome. (The headers sent are those of
  \<open>headers()\<close>, which are the same for every request of a run.)
\<close>

type_synonym source = "url \<Rightarrow> nat \<Rightarrow> outcome"

text \<open>
  The global \<open>cache = {}\<close>, and beside it the list of URLs that were passed to
  \<open>requests.get\<close>, oldest first, which counts the contacts with the Data Source.
\<close>

record state =
  cache :: "url \<rightharpoonup> response"
  requests :: "url list"

definition init_state :: state where
  "init_state = \<lparr>cache = Map.empty, requests = []\<rparr>"

text \<open>\<open>Response.raise_for_status()\<close> of the requests library raises \<open>HTTPError\<close> for a
  client error (4xx) or a server error (5xx) status, and returns for any other.\<close>

definition raise_for_status :: "response \<Rightarrow> error + unit" where
  "raise_for_status resp =
     (if 400 \<le> status_code resp \<and> status_code resp < 600
      then Inl (HTTPError (status_code resp)) else Inr ())"

text \<open>
  \<^verbatim>\<open>
  def get_cached(url):
      if url in cache:
          return cache[url]
      resp = requests.get(url, headers=headers())
      resp.raise_for_status()
      cache[url] = resp
      return resp
  \<close>
\<close>

definition get_cached :: "source \<Rightarrow> url \<Rightarrow> state \<Rightarrow> (error + response) \<times> state" where
  "get_cached src u st =
     (case cache st u of
        Some resp \<Rightarrow> (Inr resp, st)
      | None \<Rightarrow>
         (let st1 = st\<lparr>requests := requests st @ [u]\<rparr> in
          case src u (length (requests st)) of
            Failed \<Rightarrow> (Inl ConnectionError, st1)
          | Replied resp \<Rightarrow>
             (case raise_for_status resp of
                Inl e \<Rightarrow> (Inl e, st1)
              | Inr _ \<Rightarrow> (Inr resp, st1\<lparr>cache := (cache st1)(u \<mapsto> resp)\<rparr>))))"

definition routes_url :: url where
  "routes_url = ''https://api-v3.mbta.com/routes?filter[type]=0,1''"

definition stops_url :: "string \<Rightarrow> url" where
  "stops_url rid = ''https://api-v3.mbta.com/stops?filter[route]='' @ rid"

text \<open>\<open>get_cached(...).json()['data']\<close>, read as a list of route records.\<close>

definition get_all_subway_routes :: "source \<Rightarrow> state \<Rightarrow> (error + route list) \<times> state" where
  "get_all_subway_routes src st =
     (case get_cached src routes_url st of
        (Inl e, st1) \<Rightarrow> (Inl e, st1)
      | (Inr resp, st1) \<Rightarrow>
         (case body resp of
            Some (Routes rs) \<Rightarrow> (Inr rs, st1)
          | _ \<Rightarrow> (Inl MalformedPayload, st1)))"

text \<open>\<open>get_cached(...).json()['data']\<close>, read as a list of stop records.\<close>

definition get_all_stops_for_route ::
  "source \<Rightarrow> string \<Rightarrow> state \<Rightarrow> (error + stop list) \<times> state" where
  "get_all_stops_for_route src rid st =
     (case get_cached src (stops_url rid) st of
        (Inl e, st1) \<Rightarrow> (Inl e, st1)
      | (Inr resp, st1) \<Rightarrow>
         (case body resp of
            Some (Stops ss) \<Rightarrow> (Inr ss, st1)
          | _ \<Rightarrow> (Inl MalformedPayload, st1)))"

text \<open>A run of calls to \<open>get_cached\<close>, one for each URL of the list, whatever each of them
  returns or raises: the state they leave behind.\<close>

fun run_calls :: "source \<Rightarrow> url list \<Rightarrow> state \<Rightarrow> state" where
  "run_calls src [] st = st"
| "run_calls src (u # us) st = run_calls src us (snd (get_cached src u st))"


section \<open>Dictionaries\<close>

text \<open>
  A Python \<open>dict\<close> keeps its keys in insertion order, and the statistics iterate over
  it, so a dictionary from labels to lists of labels is an association list. Assigning
  to a key that exists replaces its value in place; a new key goes to the end.
\<close>

type_synonym dict = "(label \<times> label list) list"

text \<open>\<open>d[k] = v\<close>\<close>

fun dict_set :: "dict \<Rightarrow> label \<Rightarrow> label list \<Rightarrow> dict" where
  "dict_set [] k v = [(k, v)]"
| "dict_set ((k', v') # rest) k v =
     (if k' = k then (k, v) # rest else (k', v') # dict_set rest k v)"

text \<open>\<open>d[k].append(x)\<close> on a \<open>defaultdict(lambda: [])\<close>: a missing key starts from
  the empty list.\<close>

fun dd_append :: "dict \<Rightarrow> label \<Rightarrow> label \<Rightarrow> dict" where
  "dd_append [] k x = [(k, [x])]"
| "dd_append ((k', v') # rest) k x =
     (if k' = k then (k', v' @ [x]) # rest else (k', v') # dd_append rest k x)"

text \<open>\<open>s.add(x)\<close> on a set kept as the list of its members.\<close>

definition set_add :: "label list \<Rightarrow> label \<Rightarrow> label list" where
  "set_add ns x = (if x \<in> set ns then ns else ns @ [x])"

text \<open>\<open>d[k].add(x)\<close> on a \<open>defaultdict(lambda: set())\<close>: a missing key starts from
  the empty set.\<close>

fun dd_add :: "adjacency \<Rightarrow> label \<Rightarrow> label \<Rightarrow> adjacency" where
  "dd_add [] k x = [(k, [x])]"
| "dd_add ((k', ns) # rest) k x =
     (if k' = k then (k', set_add ns x) # rest else (k', ns) # dd_add rest k x)"

text \<open>What reading \<open>d[k]\<close> does to a \<open>defaultdict(lambda: set())\<close>: a missing key is
  inserted with the empty set.\<close>

definition default_insert :: "adjacency \<Rightarrow> label \<Rightarrow> adjacency" where
  "default_insert neighbors k =
     (if k \<in> fst ` set neighbors then neighbors else neighbors @ [(k, [])])"

section \<open>Route statistics\<close>

text \<open>
  \<^verbatim>\<open>
  def get_route_to_stops():
      route_to_stops_dict = {}
      for route in get_all_subway_routes():
          stops = get_all_stops_for_route(route['id'])
          route_name = route['attributes']['long_name']
          route_to_stops_dict[route_name] = [stop['attributes']['name'] for stop in stops]
      return route_to_stops_dict
  \<close>
  The \<open>for\<close> loop is \<open>route_to_stops_loop\<close>, over the routes still to come; an
  exception of a fetch ends it.
\<close>

fun route_to_stops_loop ::
  "source \<Rightarrow> route list \<Rightarrow> dict \<Rightarrow> state \<Rightarrow> (error + dict) \<times> state" where
  "route_to_stops_loop src [] route_to_stops_dict st = (Inr route_to_stops_dict, st)"
| "route_to_stops_loop src (route # routes) route_to_stops_dict st =
     (case get_all_stops_for_route src (route_id route) st of
        (Inl e, st1) \<Rightarrow> (Inl e, st1)
      | (Inr stops, st1) \<Rightarrow>
          route_to_stops_loop src routes
            (dict_set route_to_stops_dict (long_name route) (map stop_name stops)) st1)"

definition get_route_to_stops :: "source \<Rightarrow> state \<Rightarrow> (error + dict) \<times> state" where
  "get_route_to_stops src st =
     (case get_all_subway_routes src st of
        (Inl e, st1) \<Rightarrow> (Inl e, st1)
      | (Inr routes, st1) \<Rightarrow> route_to_stops_loop src routes [] st1)"

text \<open>
  \<^verbatim>\<open>
  def get_stop_to_routes():
      stop_to_routes_dict = defaultdict(lambda: [])
      for route in get_all_subway_routes():
          stops = get_all_stops_for_route(route['id'])
          route_name = route['attributes']['long_name']
          for stop in stops:
              stop_name = stop['attributes']['name']
              stop_to_routes_dict[stop_name].append(route_name)
      return stop_to_routes_dict
  \<close>
  \<open>append_route\<close> is the inner loop, \<open>stop_to_routes_loop\<close> the outer one.
\<close>

fun append_route :: "label \<Rightarrow> stop list \<Rightarrow> dict \<Rightarrow> dict" where
  "append_route route_name [] stop_to_routes_dict = stop_to_routes_dict"
| "append_route route_name (stop # stops) stop_to_routes_dict =
     append_route route_name stops (dd_append stop_to_routes_dict (stop_name stop) route_name)"

fun stop_to_routes_loop ::
  "source \<Rightarrow> route list \<Rightarrow> dict \<Rightarrow> state \<Rightarrow> (error + dict) \<times> state" where
  "stop_to_routes_loop src [] stop_to_routes_dict st = (Inr stop_to_routes_dict, st)"
| "stop_to_routes_loop src (route # routes) stop_to_routes_dict st =
     (case get_all_stops_for_route src (route_id route) st of
        (Inl e, st1) \<Rightarrow> (Inl e, st1)
      | (Inr stops, st1) \<Rightarrow>
          stop_to_routes_loop src routes
            (append_route (long_name route) stops stop_to_routes_dict) st1)"

definition get_stop_to_routes :: "source \<Rightarrow> state \<Rightarrow> (error + dict) \<times> state" where
  "get_stop_to_routes src st =
     (case get_all_subway_routes src st of
        (Inl e, st1) \<Rightarrow> (Inl e, st1)
      | (Inr routes, st1) \<Rightarrow> stop_to_routes_loop src routes [] st1)"

text \<open>The key function of \<open>min\<close> and \<open>max\<close>, \<open>lambda val: len(route_to_stops[val])\<close>;
  subscripting a plain \<open>dict\<close> with a missing key raises \<open>KeyError\<close>.\<close>

definition num_stops :: "dict \<Rightarrow> label \<Rightarrow> error + nat" where
  "num_stops route_to_stops val =
     (case map_of route_to_stops val of
        None \<Rightarrow> Inl KeyError
      | Some stops \<Rightarrow> Inr (length stops))"

text \<open>
  Python's \<open>min(iterable, key=f)\<close> keeps the first item and replaces it by a later one
  only when the later key is strictly smaller; \<open>max\<close> only when it is strictly greater.
  Both raise \<open>ValueError\<close> on an empty iterable. Iterating a \<open>dict\<close> yields its keys.
  \<open>min_loop\<close> and \<open>max_loop\<close> run over the keys after the first, with the best key so
  far and its number of stops.
\<close>

fun min_loop :: "dict \<Rightarrow> label \<Rightarrow> nat \<Rightarrow> label list \<Rightarrow> error + label" where
  "min_loop route_to_stops best best_n [] = Inr best"
| "min_loop route_to_stops best best_n (val # vals) =
     (case num_stops route_to_stops val of
        Inl e \<Rightarrow> Inl e
      | Inr n \<Rightarrow> if n < best_n then min_loop route_to_stops val n vals
                 else min_loop route_to_stops best best_n vals)"

fun max_loop :: "dict \<Rightarrow> label \<Rightarrow> nat \<Rightarrow> label list \<Rightarrow> error + label" where
  "max_loop route_to_stops best best_n [] = Inr best"
| "max_loop route_to_stops best best_n (val # vals) =
     (case num_stops route_to_stops val of
        Inl e \<Rightarrow> Inl e
      | Inr n \<Rightarrow> if n > best_n then max_loop route_to_stops val n vals
                 else max_loop route_to_stops best best_n vals)"

definition min_route :: "dict \<Rightarrow> error + label" where
  "min_route route_to_stops =
     (case map fst route_to_stops of
        [] \<Rightarrow> Inl ValueError
      | val # vals \<Rightarrow>
         (case num_stops route_to_stops val of
            Inl e \<Rightarrow> Inl e
          | Inr n \<Rightarrow> min_loop route_to_stops val n vals))"

definition max_route :: "dict \<Rightarrow> error + label" where
  "max_route route_to_stops =
     (case map fst route_to_stops of
        [] \<Rightarrow> Inl ValueError
      | val # vals \<Rightarrow>
         (case num_stops route_to_stops val of
            Inl e \<Rightarrow> Inl e
          | Inr n \<Rightarrow> max_loop route_to_stops val n vals))"

text \<open>
  The body of \<open>compute_route_with_least_stops\<close> after the dictionary is fetched:
  \<^verbatim>\<open>
      route = min(route_to_stops, key=lambda val: len(route_to_stops[val]))
      return route, len(route_to_stops[route])
  \<close>
  and that of \<open>compute_route_with_most_stops\<close>, with \<open>max\<close>.
\<close>

definition route_with_least_stops :: "dict \<Rightarrow> error + label \<times> nat" where
  "route_with_least_stops route_to_stops =
     (case min_route route_to_stops of
        Inl e \<Rightarrow> Inl e
      | Inr route \<Rightarrow>
         (case num_stops route_to_stops route of
            Inl e \<Rightarrow> Inl e
          | Inr n \<Rightarrow> Inr (route, n)))"

definition route_with_most_stops :: "dict \<Rightarrow> error + label \<times> nat" where
  "route_with_most_stops route_to_stops =
     (case max_route route_to_stops of
        Inl e \<Rightarrow> Inl e
      | Inr route \<Rightarrow>
         (case num_stops route_to_stops route of
            Inl e \<Rightarrow> Inl e
          | Inr n \<Rightarrow> Inr (route, n)))"

definition compute_route_with_least_stops ::
  "source \<Rightarrow> state \<Rightarrow> (error + label \<times> nat) \<times> state" where
  "compute_route_with_least_stops src st =
     (case get_route_to_stops src st of
        (Inl e, st1) \<Rightarrow> (Inl e, st1)
      | (Inr route_to_stops, st1) \<Rightarrow> (route_with_least_stops route_to_stops, st1))"

definition compute_route_with_most_stops ::
  "source \<Rightarrow> state \<Rightarrow> (error + label \<times> nat) \<times> state" where
  "compute_route_with_most_stops src st =
     (case get_route_to_stops src st of
        (Inl e, st1) \<Rightarrow> (Inl e, st1)
      | (Inr route_to_stops, st1) \<Rightarrow> (route_with_most_stops route_to_stops, st1))"

text \<open>
  The transfer stops of \<open>q2\<close>:
  \<^verbatim>\<open>
      for stop, routes in get_stop_to_routes().items():
          if len(routes) > 1:
              print(f"\t{stop} connects {len(routes)} routes: {', '.join(routes)}")
  \<close>
  \<open>transfer_stops\<close> lists, in the order of the loop, the pairs of stop and routes for
  which a line is printed.
\<close>

fun transfer_stops :: "dict \<Rightarrow> (label \<times> label list) list" where
  "transfer_stops [] = []"
| "transfer_stops ((stop, routes) # rest) =
     (if length routes > 1 then (stop, routes) # transfer_stops rest
      else transfer_stops rest)"

definition q2_transfer_stops ::
  "source \<Rightarrow> state \<Rightarrow> (error + (label \<times> label list) list) \<times> state" where
  "q2_transfer_stops src st =
     (case get_stop_to_routes src st of
        (Inl e, st1) \<Rightarrow> (Inl e, st1)
      | (Inr stop_to_routes, st1) \<Rightarrow> (Inr (transfer_stops stop_to_routes), st1))"

section \<open>Adjacency builder\<close>

text \<open>
  \<^verbatim>\<open>
  def compute_route_between(stop1, stop2):
      neighbors = defaultdict(lambda: set())
      for route in get_all_subway_routes():
          for stop in get_all_stops_for_route(route['id']):
              stop_name = stop['attributes']['name']
              route_name = route['attributes']['long_name']
              neighbors[stop_name].add(route_name)
              neighbors[route_name].add(stop_name)
      return bfs(neighbors, stop1, stop2)
  \<close>
  \<open>add_edges\<close> is the inner loop for one route, \<open>neighbors_loop\<close> the outer loop,
  \<open>build_neighbors\<close> everything before the \<open>return\<close>.
\<close>

fun add_edges :: "label \<Rightarrow> stop list \<Rightarrow> adjacency \<Rightarrow> adjacency" where
  "add_edges route_name [] neighbors = neighbors"
| "add_edges route_name (stop # stops) neighbors =
     add_edges route_name stops
       (dd_add (dd_add neighbors (stop_name stop) route_name) route_name (stop_name stop))"

fun neighbors_loop ::
  "source \<Rightarrow> route list \<Rightarrow> adjacency \<Rightarrow> state \<Rightarrow> (error + adjacency) \<times> state" where
  "neighbors_loop src [] neighbors st = (Inr neighbors, st)"
| "neighbors_loop src (route # routes) neighbors st =
     (case get_all_stops_for_route src (route_id route) st of
        (Inl e, st1) \<Rightarrow> (Inl e, st1)
      | (Inr stops, st1) \<Rightarrow>
          neighbors_loop src routes (add_edges (long_name route) stops neighbors) st1)"

definition build_neighbors :: "source \<Rightarrow> state \<Rightarrow> (error + adjacency) \<times> state" where
  "build_neighbors src st =
     (case get_all_subway_routes src st of
        (Inl e, st1) \<Rightarrow> (Inl e, st1)
      | (Inr routes, st1) \<Rightarrow> neighbors_loop src routes [] st1)"

definition compute_route_between ::
  "source \<Rightarrow> label \<Rightarrow> label \<Rightarrow> state \<Rightarrow> (error + label list option) \<times> state" where
  "compute_route_between src stop1 stop2 st =
     (case build_neighbors src st of
        (Inl e, st1) \<Rightarrow> (Inl e, st1)
      | (Inr neighbors, st1) \<Rightarrow> (Inr (bfs neighbors stop1 stop2), st1))"

section \<open>What the claim about the adjacency builder speaks of\<close>

text \<open>The edges of an adjacency dictionary: the pairs of a label and one of its
  neighbours.\<close>

definition edges :: "adjacency \<Rightarrow> (label \<times> label) set" where
  "edges neighbors = {(a, b). b \<in> set (lookup neighbors a)}"

text \<open>The cache holds, under the stops URL of a route, a response whose body is this list
  of stops.\<close>

definition stops_in_cache :: "state \<Rightarrow> string \<Rightarrow> stop list \<Rightarrow> bool" where
  "stops_in_cache st rid stops =
     (\<exists>resp. cache st (stops_url rid) = Some resp \<and> body resp = Some (Stops stops))"

section \<open>A small network for the examples\<close>

text \<open>
  The adjacency dictionary that \<open>compute_route_between\<close> builds for a Red line through
  Ashmont, Park and Arlington and a Green line through Park and Arlington, and beside
  them a Blue line with the single stop Wonderland, which nothing connects to the rest.
\<close>

definition example_graph :: adjacency where
  "example_graph =
     [(''Ashmont'', [''Red'']), (''Red'', [''Ashmont'', ''Park'', ''Arlington'']),
      (''Park'', [''Red'', ''Green'']), (''Arlington'', [''Red'', ''Green'']),
      (''Green'', [''Park'', ''Arlington'']),
      (''Wonderland'', [''Blue'']), (''Blue'', [''Wonderland''])]"

section \<open>Reliable sources, and stub sources for the examples\<close>

text \<open>A source that never fails: every request is answered with a status that
  \<open>raise_for_status\<close> lets through.\<close>

definition never_fails :: "source \<Rightarrow> bool" where
  "never_fails src = (\<forall>u n. \<exists>resp. src u n = Replied resp \<and> raise_for_status resp = Inr ())"

text \<open>
  A stub service with the three lines of the example network: the routes under the
  routes URL, the stops of each under its stops URL, and 404 elsewhere.
\<close>

definition stub_source :: source where
  "stub_source u n =
     (if u = routes_url then
        Replied \<lparr>status_code = 200, body = Some (Routes
          [\<lparr>route_id = ''R'', long_name = ''Red''\<rparr>,
           \<lparr>route_id = ''G'', long_name = ''Green''\<rparr>,
           \<lparr>route_id = ''B'', long_name = ''Blue''\<rparr>])\<rparr>
      else if u = stops_url ''R'' then
        Replied \<lparr>status_code = 200, body = Some (Stops
          [\<lparr>stop_name = ''Ashmont''\<rparr>, \<lparr>stop_name = ''Park''\<rparr>, \<lparr>stop_name = ''Arlington''\<rparr>])\<rparr>
      else if u = stops_url ''G'' then
        Replied \<lparr>status_code = 200, body = Some (Stops
          [\<lparr>stop_name = ''Park''\<rparr>, \<lparr>stop_name = ''Arlington''\<rparr>])\<rparr>
      else if u = stops_url ''B'' then
        Replied \<lparr>status_code = 200, body = Some (Stops [\<lparr>stop_name = ''Wonderland''\<rparr>])\<rparr>
      else Replied \<lparr>status_code = 404, body = None\<rparr>)"

text \<open>
  A stub service whose Red line lists the stop name Park three times (three platforms of
  one name, say), beside a Blue line with two stops.
\<close>

definition repeating_source :: source where
  "repeating_source u n =
     (if u = routes_url then
        Replied \<lparr>status_code = 200, body = Some (Routes
          [\<lparr>route_id = ''R'', long_name = ''Red''\<rparr>,
           \<lparr>route_id = ''B'', long_name = ''Blue''\<rparr>])\<rparr>
      else if u = stops_url ''R'' then
        Replied \<lparr>status_code = 200, body = Some (Stops
          [\<lparr>stop_name = ''Park''\<rparr>, \<lparr>stop_name = ''Park''\<rparr>, \<lparr>stop_name = ''Park''\<rparr>])\<rparr>
      else if u = stops_url ''B'' then
        Replied \<lparr>status_code = 200, body = Some (Stops
          [\<lparr>stop_name = ''Airport''\<rparr>, \<lparr>stop_name = ''Maverick''\<rparr>])\<rparr>
      else Replied \<lparr>status_code = 404, body = None\<rparr>)"

text \<open>A service that answers every request with status 200 and an empty list of routes.\<close>

definition empty_source :: source where
  "empty_source u n = Replied \<lparr>status_code = 200, body = Some (Routes [])\<rparr>"



section \<open>Properties of the fetch cache\<close>

lemma get_cached_hit: "cache st u = Some resp \<Longrightarrow> get_cached src u st = (Inr resp, st)"
  by (simp add: get_cached_def)

lemma get_cached_Inr:
  "get_cached src u st = (Inr resp, st1) \<Longrightarrow> cache st1 u = Some resp"
  by (auto simp: get_cached_def Let_def split: option.splits outcome.splits sum.splits)

lemma get_cached_keeps:
  "cache st u' = Some resp \<Longrightarrow> cache (snd (get_cached src u st)) u' = Some resp"
  by (auto simp: get_cached_def Let_def split: option.splits outcome.splits sum.splits)

lemma get_cached_requests:
  "requests (snd (get_cached src u st))
     = (if cache st u = None then requests st @ [u] else requests st)"
  by (auto simp: get_cached_def Let_def split: option.splits outcome.splits sum.splits)


lemma run_calls_keeps:
  "cache st u = Some resp \<Longrightarrow> cache (run_calls src us st) u = Some resp"
  by (induction us arbitrary: st) (auto simp: get_cached_keeps)

lemma run_calls_count:
  "cache st u = Some resp \<Longrightarrow>
     count_list (requests (run_calls src us st)) u = count_list (requests st) u"
proof (induction us arbitrary: st)
  case Nil
  then show ?case by simp
next
  case (Cons u' us)
  let ?st = "snd (get_cached src u' st)"
  from Cons.prems have keep: "cache ?st u = Some resp" by (rule get_cached_keeps)
  have "count_list (requests ?st) u = count_list (requests st) u"
    using Cons.prems by (auto simp: get_cached_requests)
  with Cons.IH [OF keep] show ?case by simp
qed

text \<open>With a source that never fails, every URL requested so far is cached, and none was
  requested twice.\<close>

lemma never_fails_step:
  assumes "never_fails src" and "set (requests st) \<subseteq> dom (cache st)"
    and "distinct (requests st)"
  shows "set (requests (snd (get_cached src u st))) \<subseteq> dom (cache (snd (get_cached src u st)))
         \<and> distinct (requests (snd (get_cached src u st)))"
proof (cases "cache st u")
  case (Some resp)
  with assms show ?thesis by (simp add: get_cached_hit)
next
  case None
  from assms(1) obtain resp where
    r: "src u (length (requests st)) = Replied resp" "raise_for_status resp = Inr ()"
    unfolding never_fails_def by blast
  from None assms(2) have "u \<notin> set (requests st)" by auto
  with None r assms(2,3) show ?thesis
    by (auto simp: get_cached_def Let_def)
qed

lemma never_fails_run:
  assumes "never_fails src"
  shows "set (requests st) \<subseteq> dom (cache st) \<Longrightarrow> distinct (requests st) \<Longrightarrow>
     distinct (requests (run_calls src us st))"
proof (induction us arbitrary: st)
  case Nil
  then show ?case by simp
next
  case (Cons u us)
  from never_fails_step [OF assms Cons.prems] Cons.IH show ?case by simp
qed

lemma never_fails_twice:
  assumes "never_fails src"
  shows "requests (run_calls src [u, u] init_state) = [u]"
proof -
  from assms obtain resp where
    r: "src u 0 = Replied resp" "raise_for_status resp = Inr ()"
    unfolding never_fails_def by blast
  then show ?thesis by (simp add: get_cached_def init_state_def Let_def)
qed

lemma never_fails_stub: "never_fails empty_source"
  by (simp add: never_fails_def empty_source_def raise_for_status_def)

text \<open>A miss that succeeds returns what the source replied, stores it under the URL and
  logs one request; and a reply that \<open>raise_for_status\<close> lets through makes a miss succeed.\<close>

lemma get_cached_miss:
  assumes "cache st u = None" and "get_cached src u st = (Inr resp, st1)"
  shows "src u (length (requests st)) = Replied resp \<and> raise_for_status resp = Inr ()
       \<and> cache st1 = (cache st)(u \<mapsto> resp) \<and> requests st1 = requests st @ [u]"
  using assms
  by (auto simp: get_cached_def Let_def split: outcome.splits sum.splits)

lemma get_cached_reply:
  assumes "cache st u = None" and "src u (length (requests st)) = Replied resp"
    and "raise_for_status resp = Inr ()"
  shows "get_cached src u st
     = (Inr resp, st\<lparr>requests := requests st @ [u], cache := (cache st)(u \<mapsto> resp)\<rparr>)"
  using assms by (simp add: get_cached_def Let_def)

text \<open>The definitions that evaluate a fetch against a concrete source.\<close>

lemmas fetch_defs = get_all_subway_routes_def get_all_stops_for_route_def get_cached_def
  init_state_def raise_for_status_def routes_url_def stops_url_def

subsection \<open>The claims about the fetch cache\<close>

text \<open>
  C5. A call of \<open>get_cached\<close> that succeeds on a URL missing from the cache returns the
  response the Data Source gave to this one request and stores it under the URL (and
  whenever the Data Source answers a missing URL with a status that \<open>raise_for_status\<close>
  lets through, the call succeeds so); a call on a URL that is in the cache returns the
  stored response and changes nothing. Once a call for a URL has succeeded, its response
  is in the cache: after any further calls, a call with the same URL returns that
  response and leaves the state as it was, and the number of requests made for the URL
  has not grown. With a Data Source that does not fail, no URL is ever requested twice,
  and two calls with the same URL from the empty cache make exactly one request, both
  returning what the Data Source replied to it.
\<close>

theorem cache_fetches_once:
  "(get_cached src u st = (Inr resp, st1) \<longrightarrow>
      cache st1 u = Some resp
      \<and> (case cache st u of
            Some stored \<Rightarrow> resp = stored \<and> st1 = st
          | None \<Rightarrow> src u (length (requests st)) = Replied resp
                    \<and> cache st1 = (cache st)(u \<mapsto> resp)
                    \<and> requests st1 = requests st @ [u])
      \<and> get_cached src u (run_calls src us st1) = (Inr resp, run_calls src us st1)
      \<and> count_list (requests (run_calls src us st1)) u = count_list (requests st1) u)
   \<and> (cache st u = None \<and> src u (length (requests st)) = Replied resp
        \<and> raise_for_status resp = Inr () \<longrightarrow>
      get_cached src u st
        = (Inr resp, st\<lparr>requests := requests st @ [u], cache := (cache st)(u \<mapsto> resp)\<rparr>))
   \<and> (never_fails src \<longrightarrow>
      distinct (requests (run_calls src us init_state))
      \<and> requests (run_calls src [u, u] init_state) = [u]
      \<and> (\<exists>reply. src u 0 = Replied reply
            \<and> fst (get_cached src u init_state) = Inr reply
            \<and> get_cached src u (snd (get_cached src u init_state))
                = (Inr reply, snd (get_cached src u init_state))))"
proof (intro conjI impI)
  assume ok: "get_cached src u st = (Inr resp, st1)"
  from get_cached_Inr [OF ok] show c: "cache st1 u = Some resp" .
  show "case cache st u of
            Some stored \<Rightarrow> resp = stored \<and> st1 = st
          | None \<Rightarrow> src u (length (requests st)) = Replied resp
                    \<and> cache st1 = (cache st)(u \<mapsto> resp)
                    \<and> requests st1 = requests st @ [u]"
  proof (cases "cache st u")
    case None
    with get_cached_miss [OF None ok] show ?thesis by simp
  next
    case (Some stored)
    with ok get_cached_hit [OF Some, of src] show ?thesis by simp
  qed
  from run_calls_keeps [OF c]
  show "get_cached src u (run_calls src us st1) = (Inr resp, run_calls src us st1)"
    by (rule get_cached_hit)
  from run_calls_count [OF c]
  show "count_list (requests (run_calls src us st1)) u = count_list (requests st1) u" .
next
  assume "cache st u = None \<and> src u (length (requests st)) = Replied resp
        \<and> raise_for_status resp = Inr ()"
  then show "get_cached src u st
        = (Inr resp, st\<lparr>requests := requests st @ [u], cache := (cache st)(u \<mapsto> resp)\<rparr>)"
    by (simp add: get_cached_reply)
next
  assume nf: "never_fails src"
  show "distinct (requests (run_calls src us init_state))"
    by (rule never_fails_run [OF nf]) (simp_all add: init_state_def)
  show "requests (run_calls src [u, u] init_state) = [u]"
    by (rule never_fails_twice [OF nf])
  from nf obtain reply where
    r: "src u 0 = Replied reply" "raise_for_status reply = Inr ()"
    unfolding never_fails_def by blast
  have n: "cache init_state u = None" "length (requests init_state) = 0"
    by (simp_all add: init_state_def)
  from r n have g: "get_cached src u init_state
      = (Inr reply, init_state\<lparr>requests := requests init_state @ [u],
           cache := (cache init_state)(u \<mapsto> reply)\<rparr>)"
    by (intro get_cached_reply) simp_all
  then have f: "fst (get_cached src u init_state) = Inr reply" by simp
  from g have "cache (snd (get_cached src u init_state)) u = Some reply" by simp
  then have "get_cached src u (snd (get_cached src u init_state))
                = (Inr reply, snd (get_cached src u init_state))"
    by (rule get_cached_hit)
  with r(1) f show "\<exists>reply. src u 0 = Replied reply
            \<and> fst (get_cached src u init_state) = Inr reply
            \<and> get_cached src u (snd (get_cached src u init_state))
                = (Inr reply, snd (get_cached src u init_state))" by blast
qed

theorem cache_fetches_once_witness:
  "get_cached empty_source routes_url init_state
     = (Inr \<lparr>status_code = 200, body = Some (Routes [])\<rparr>,
        snd (get_cached empty_source routes_url init_state))
   \<and> never_fails empty_source
   \<and> cache init_state routes_url = None
   \<and> empty_source routes_url (length (requests init_state))
      = Replied \<lparr>status_code = 200, body = Some (Routes [])\<rparr>
   \<and> raise_for_status \<lparr>status_code = 200, body = Some (Routes [])\<rparr> = Inr ()
   \<and> cache (snd (get_cached empty_source routes_url init_state)) routes_url
      = Some \<lparr>status_code = 200, body = Some (Routes [])\<rparr>
   \<and> requests (snd (get_cached empty_source routes_url init_state)) = [routes_url]
   \<and> fst (get_cached empty_source routes_url
        (run_calls empty_source [stops_url ''Red'']
           (snd (get_cached empty_source routes_url init_state))))
     = Inr \<lparr>status_code = 200, body = Some (Routes [])\<rparr>
   \<and> requests (run_calls empty_source [routes_url, routes_url] init_state) = [routes_url]"
proof -
  let ?st1 = "snd (get_cached empty_source routes_url init_state)"
  let ?resp = "\<lparr>status_code = 200, body = Some (Routes [])\<rparr>"
  have f: "fst (get_cached empty_source routes_url init_state) = Inr ?resp"
    by (simp add: get_cached_def init_state_def empty_source_def raise_for_status_def)
  then have h1: "get_cached empty_source routes_url init_state = (Inr ?resp, ?st1)"
    by (simp add: prod_eq_iff)
  have h2: "never_fails empty_source" by (rule never_fails_stub)
  have h3: "cache init_state routes_url = None" by (simp add: init_state_def)
  have h4: "empty_source routes_url (length (requests init_state)) = Replied ?resp"
    by (simp add: empty_source_def)
  have h5: "raise_for_status ?resp = Inr ()" by (simp add: raise_for_status_def)
  have r0: "requests init_state = []" by (simp add: init_state_def)
  note t = cache_fetches_once [of empty_source routes_url init_state ?resp ?st1
      "[stops_url ''Red'']"]
  from t h1 have a: "cache ?st1 routes_url = Some ?resp" by blast
  from t h1 h3 have b: "requests ?st1 = requests init_state @ [routes_url]" by simp
  from t h1 have c: "get_cached empty_source routes_url
        (run_calls empty_source [stops_url ''Red''] ?st1)
      = (Inr ?resp, run_calls empty_source [stops_url ''Red''] ?st1)" by blast
  from t h2 have d: "requests (run_calls empty_source [routes_url, routes_url] init_state)
      = [routes_url]" by blast
  from c have c': "fst (get_cached empty_source routes_url
        (run_calls empty_source [stops_url ''Red''] ?st1)) = Inr ?resp" by simp
  from b r0 have b': "requests ?st1 = [routes_url]" by simp
  from h1 h2 h3 h4 h5 a b' c' d show ?thesis by blast
qed




section \<open>Properties of the adjacency builder\<close>

lemma lookup_Cons:
  "lookup ((k', ns) # rest) k = (if k = k' then ns else lookup rest k)"
  by (simp add: lookup_def)

lemma lookup_Nil: "lookup [] k = []"
  by (simp add: lookup_def)

lemma set_lookup_dd_add:
  "set (lookup (dd_add neighbors k x) k')
     = (if k' = k then insert x (set (lookup neighbors k)) else set (lookup neighbors k'))"
  by (induction neighbors) (auto simp: lookup_Cons lookup_Nil set_add_def split: if_splits)

lemma lookup_after_default_insert: "lookup (default_insert neighbors k) k' = lookup neighbors k'"
proof (cases "k \<in> fst ` set neighbors")
  case True
  then show ?thesis by (simp add: default_insert_def)
next
  case False
  then have "map_of neighbors k = None" by (simp add: map_of_eq_None_iff)
  with False show ?thesis
    by (auto simp: default_insert_def lookup_def map_add_def split: option.splits)
qed

lemma edges_dd_add: "edges (dd_add neighbors k x) = insert (k, x) (edges neighbors)"
  by (auto simp: edges_def set_lookup_dd_add split: if_splits)

lemma edges_add_edges:
  "edges (add_edges route_name stops neighbors)
     = edges neighbors \<union> (\<lambda>s. (stop_name s, route_name)) ` set stops
         \<union> (\<lambda>s. (route_name, stop_name s)) ` set stops"
  by (induction stops arbitrary: neighbors) (auto simp: edges_dd_add)

lemma sym_add_edges:
  assumes "sym (edges neighbors)"
  shows "sym (edges (add_edges route_name stops neighbors))"
proof (rule symI)
  fix a b assume "(a, b) \<in> edges (add_edges route_name stops neighbors)"
  then consider "(a, b) \<in> edges neighbors"
    | s where "s \<in> set stops" "a = stop_name s" "b = route_name"
    | s where "s \<in> set stops" "a = route_name" "b = stop_name s"
    by (auto simp: edges_add_edges)
  then show "(b, a) \<in> edges (add_edges route_name stops neighbors)"
  proof cases
    case 1
    with assms have "(b, a) \<in> edges neighbors" by (auto dest: symD)
    then show ?thesis by (simp add: edges_add_edges)
  next
    case 2
    then show ?thesis by (auto simp: edges_add_edges)
  next
    case 3
    then show ?thesis by (auto simp: edges_add_edges)
  qed
qed

lemma stops_fetched:
  assumes "get_all_stops_for_route src rid st = (Inr stops, st1)"
  shows "stops_in_cache st1 rid stops
         \<and> (\<forall>u resp. cache st u = Some resp \<longrightarrow> cache st1 u = Some resp)"
proof -
  from assms obtain resp where
    g: "get_cached src (stops_url rid) st = (Inr resp, st1)" and b: "body resp = Some (Stops stops)"
    by (auto simp: get_all_stops_for_route_def
        split: prod.splits sum.splits option.splits payload.splits)
  from get_cached_Inr [OF g] b have "stops_in_cache st1 rid stops"
    by (auto simp: stops_in_cache_def)
  moreover have "cache st1 u = Some r" if "cache st u = Some r" for u r
    using get_cached_keeps [OF that, of src "stops_url rid"] g by simp
  ultimately show ?thesis by blast
qed

lemma stops_in_cache_read:
  "stops_in_cache st rid stops \<Longrightarrow> get_all_stops_for_route src rid st = (Inr stops, st)"
  by (auto simp: stops_in_cache_def get_all_stops_for_route_def get_cached_hit)

lemma stops_in_cache_keeps:
  "stops_in_cache st rid stops \<Longrightarrow>
     \<forall>u resp. cache st u = Some resp \<longrightarrow> cache st1 u = Some resp \<Longrightarrow>
     stops_in_cache st1 rid stops"
  by (auto simp: stops_in_cache_def)

lemma neighbors_loop_spec:
  "neighbors_loop src routes neighbors st = (Inr neighbors', st') \<Longrightarrow>
     (\<forall>u resp. cache st u = Some resp \<longrightarrow> cache st' u = Some resp)
     \<and> edges neighbors \<subseteq> edges neighbors'
     \<and> (sym (edges neighbors) \<longrightarrow> sym (edges neighbors'))
     \<and> (\<forall>route \<in> set routes. \<exists>stops. stops_in_cache st' (route_id route) stops
           \<and> (\<forall>stop \<in> set stops.
                 (long_name route, stop_name stop) \<in> edges neighbors'
                 \<and> (stop_name stop, long_name route) \<in> edges neighbors'))"
proof (induction routes arbitrary: neighbors st)
  case Nil
  then show ?case by simp
next
  case (Cons route routes)
  from Cons.prems obtain stops st1 where
    f: "get_all_stops_for_route src (route_id route) st = (Inr stops, st1)"
    and l: "neighbors_loop src routes (add_edges (long_name route) stops neighbors) st1
              = (Inr neighbors', st')"
    by (auto split: prod.splits sum.splits)
  let ?nb = "add_edges (long_name route) stops neighbors"
  from Cons.IH [OF l] have
    keep: "\<forall>u resp. cache st1 u = Some resp \<longrightarrow> cache st' u = Some resp"
    and sub: "edges ?nb \<subseteq> edges neighbors'"
    and sy: "sym (edges ?nb) \<longrightarrow> sym (edges neighbors')"
    and rest: "\<forall>route \<in> set routes. \<exists>stops. stops_in_cache st' (route_id route) stops
           \<and> (\<forall>stop \<in> set stops.
                 (long_name route, stop_name stop) \<in> edges neighbors'
                 \<and> (stop_name stop, long_name route) \<in> edges neighbors')"
    by blast+
  from stops_fetched [OF f] have
    c1: "stops_in_cache st1 (route_id route) stops"
    and k1: "\<forall>u resp. cache st u = Some resp \<longrightarrow> cache st1 u = Some resp" by blast+
  have a: "\<forall>u resp. cache st u = Some resp \<longrightarrow> cache st' u = Some resp"
    using k1 keep by blast
  have b: "edges neighbors \<subseteq> edges neighbors'"
    using sub by (auto simp: edges_add_edges)
  have c: "sym (edges neighbors) \<longrightarrow> sym (edges neighbors')"
    using sy sym_add_edges by blast
  have here: "stops_in_cache st' (route_id route) stops
           \<and> (\<forall>stop \<in> set stops.
                 (long_name route, stop_name stop) \<in> edges neighbors'
                 \<and> (stop_name stop, long_name route) \<in> edges neighbors')"
    using stops_in_cache_keeps [OF c1 keep] sub by (auto simp: edges_add_edges)
  have d: "\<forall>r \<in> set (route # routes). \<exists>stops. stops_in_cache st' (route_id r) stops
           \<and> (\<forall>stop \<in> set stops.
                 (long_name r, stop_name stop) \<in> edges neighbors'
                 \<and> (stop_name stop, long_name r) \<in> edges neighbors')"
  proof
    fix r assume "r \<in> set (route # routes)"
    then consider "r = route" | "r \<in> set routes" by auto
    then show "\<exists>stops. stops_in_cache st' (route_id r) stops
           \<and> (\<forall>stop \<in> set stops.
                 (long_name r, stop_name stop) \<in> edges neighbors'
                 \<and> (stop_name stop, long_name r) \<in> edges neighbors')"
    proof cases
      case 1
      with here show ?thesis by blast
    next
      case 2
      with rest show ?thesis by blast
    qed
  qed
  from a b c d show ?case by blast
qed

lemma routes_fetched:
  assumes "get_all_subway_routes src st = (Inr routes, st1)"
  shows "\<exists>resp. cache st1 routes_url = Some resp \<and> body resp = Some (Routes routes)"
proof -
  from assms obtain resp where
    g: "get_cached src routes_url st = (Inr resp, st1)" and b: "body resp = Some (Routes routes)"
    by (auto simp: get_all_subway_routes_def
        split: prod.splits sum.splits option.splits payload.splits)
  from get_cached_Inr [OF g] b show ?thesis by blast
qed

lemma edges_Nil: "edges [] = {}"
  by (simp add: edges_def lookup_Nil)

subsection \<open>The claim about the adjacency builder\<close>

text \<open>
  C7. When \<open>compute_route_between\<close> has built its adjacency dictionary (no fetch having
  failed), the dictionary is symmetric: whenever \<open>B\<close> is among the neighbours of \<open>A\<close>,
  \<open>A\<close> is among those of \<open>B\<close>. It is complete: for every route that the Data Source
  returned and every stop it returned for that route (the responses that the cache now
  holds, and that the two fetch functions read back from it), the stop's name is among the
  neighbours of the route's name and the route's name among those of the stop's name.
\<close>

theorem adjacency_symmetric_complete:
  assumes "build_neighbors src st = (Inr neighbors, st1)"
  shows "(\<forall>a b. b \<in> set (lookup neighbors a) \<longrightarrow> a \<in> set (lookup neighbors b))
       \<and> (\<exists>routes. get_all_subway_routes src st1 = (Inr routes, st1)
            \<and> (\<forall>route \<in> set routes.
                  \<exists>stops. get_all_stops_for_route src (route_id route) st1 = (Inr stops, st1)
                    \<and> (\<forall>stop \<in> set stops.
                          stop_name stop \<in> set (lookup neighbors (long_name route))
                          \<and> long_name route \<in> set (lookup neighbors (stop_name stop)))))"
proof -
  from assms obtain routes st0 where
    r: "get_all_subway_routes src st = (Inr routes, st0)"
    and l: "neighbors_loop src routes [] st0 = (Inr neighbors, st1)"
    by (auto simp: build_neighbors_def split: prod.splits sum.splits)
  from neighbors_loop_spec [OF l] have
    keep: "\<forall>u resp. cache st0 u = Some resp \<longrightarrow> cache st1 u = Some resp"
    and sy: "sym (edges [])  \<longrightarrow> sym (edges neighbors)"
    and all: "\<forall>route \<in> set routes. \<exists>stops. stops_in_cache st1 (route_id route) stops
           \<and> (\<forall>stop \<in> set stops.
                 (long_name route, stop_name stop) \<in> edges neighbors
                 \<and> (stop_name stop, long_name route) \<in> edges neighbors)"
    by blast+
  from sy have "sym (edges neighbors)" by (simp add: edges_Nil sym_def)
  then have s: "\<forall>a b. b \<in> set (lookup neighbors a) \<longrightarrow> a \<in> set (lookup neighbors b)"
    by (auto simp: sym_def edges_def)
  from routes_fetched [OF r] keep obtain resp where
    "cache st1 routes_url = Some resp" "body resp = Some (Routes routes)" by blast
  then have rr: "get_all_subway_routes src st1 = (Inr routes, st1)"
    by (simp add: get_all_subway_routes_def get_cached_hit)
  have "\<exists>stops. get_all_stops_for_route src (route_id route) st1 = (Inr stops, st1)
                    \<and> (\<forall>stop \<in> set stops.
                          stop_name stop \<in> set (lookup neighbors (long_name route))
                          \<and> long_name route \<in> set (lookup neighbors (stop_name stop)))"
    if "route \<in> set routes" for route
  proof -
    from all that obtain stops where
      c: "stops_in_cache st1 (route_id route) stops"
      and e: "\<forall>stop \<in> set stops.
                 (long_name route, stop_name stop) \<in> edges neighbors
                 \<and> (stop_name stop, long_name route) \<in> edges neighbors" by blast
    from stops_in_cache_read [OF c] e show ?thesis by (auto simp: edges_def)
  qed
  with s rr show ?thesis by blast
qed

theorem adjacency_symmetric_complete_witness:
  "fst (build_neighbors stub_source init_state) = Inr example_graph
   \<and> sym (edges example_graph)
   \<and> (\<exists>routes. fst (get_all_subway_routes stub_source
                      (snd (build_neighbors stub_source init_state))) = Inr routes
        \<and> (\<forall>route \<in> set routes.
              \<exists>stops. fst (get_all_stops_for_route stub_source (route_id route)
                              (snd (build_neighbors stub_source init_state))) = Inr stops
                \<and> (\<forall>stop \<in> set stops.
                      stop_name stop \<in> set (lookup example_graph (long_name route))
                      \<and> long_name route \<in> set (lookup example_graph (stop_name stop)))))"
proof -
  let ?st1 = "snd (build_neighbors stub_source init_state)"
  have f: "fst (build_neighbors stub_source init_state) = Inr example_graph"
    by (simp add: build_neighbors_def stub_source_def fetch_defs set_add_def example_graph_def)
  then have h: "build_neighbors stub_source init_state = (Inr example_graph, ?st1)"
    by (simp add: prod_eq_iff)
  from adjacency_symmetric_complete [OF h] have
    s: "\<forall>a b. b \<in> set (lookup example_graph a) \<longrightarrow> a \<in> set (lookup example_graph b)"
    and c: "\<exists>routes. get_all_subway_routes stub_source ?st1 = (Inr routes, ?st1)
        \<and> (\<forall>route \<in> set routes.
              \<exists>stops. get_all_stops_for_route stub_source (route_id route) ?st1
                         = (Inr stops, ?st1)
                \<and> (\<forall>stop \<in> set stops.
                      stop_name stop \<in> set (lookup example_graph (long_name route))
                      \<and> long_name route \<in> set (lookup example_graph (stop_name stop))))"
    by blast+
  from s have "sym (edges example_graph)" by (auto simp: sym_def edges_def)
  moreover from c have "\<exists>routes. fst (get_all_subway_routes stub_source ?st1) = Inr routes
        \<and> (\<forall>route \<in> set routes.
              \<exists>stops. fst (get_all_stops_for_route stub_source (route_id route) ?st1) = Inr stops
                \<and> (\<forall>stop \<in> set stops.
                      stop_name stop \<in> set (lookup example_graph (long_name route))
                      \<and> long_name route \<in> set (lookup example_graph (stop_name stop))))"
    by fastforce
  ultimately show ?thesis using f by blast
qed

text \<open>The end-to-end scenario: from Ashmont to Arlington over the stub service the path
  found is Ashmont, Red, Arlington.\<close>

lemma stub_route_between:
  "fst (compute_route_between stub_source ''Ashmont'' ''Arlington'' init_state)
     = Inr (Some [''Ashmont'', ''Red'', ''Arlington''])"
  by (simp add: compute_route_between_def build_neighbors_def stub_source_def fetch_defs
      set_add_def bfs_def lookup_def)

section \<open>Properties of the path finder\<close>

lemma set_fresh: "set (fresh v ns) = set ns - set v"
  by (induction ns arbitrary: v) auto

lemma distinct_fresh: "distinct (fresh v ns)"
  by (induction ns arbitrary: v) (auto simp: set_fresh)

lemma scan_eq:
  "scan ns c p (v, q) = (v @ fresh v ns, q @ map (\<lambda>n. (n, p @ [c])) (fresh v ns))"
  by (induction ns arbitrary: v q) auto

lemma walk_snoc: "walk g (p @ [x]) \<Longrightarrow> y \<in> set (lookup g x) \<Longrightarrow> walk g (p @ [x, y])"
  by (induction g p rule: walk.induct) auto

lemma walk_snoc': "walk g (p @ [x]) \<Longrightarrow> y \<in> set (lookup g x) \<Longrightarrow> walk g ((p @ [x]) @ [y])"
  using walk_snoc by simp

lemma hd_snoc: "hd (p @ [x]) = s \<Longrightarrow> hd ((p @ [x]) @ [y]) = s"
  by (cases p) auto

lemma sound_inv_init: "sound_inv g s [s] [(s, [])]"
  by (simp add: sound_inv_def)

lemma sound_inv_step:
  assumes "sound_inv g s v ((c, p) # q)"
  shows "sound_inv g s (v @ fresh v (lookup g c))
           (q @ map (\<lambda>n. (n, p @ [c])) (fresh v (lookup g c)))"
proof -
  from assms have hd: "set (p @ [c]) \<subseteq> set v" "hd (p @ [c]) = s" "walk g (p @ [c])"
      "distinct (p @ [c])"
    and old: "\<forall>(n, p') \<in> set q. set (p' @ [n]) \<subseteq> set v \<and> hd (p' @ [n]) = s \<and> walk g (p' @ [n])
        \<and> distinct (p' @ [n])"
    by (auto simp: sound_inv_def)
  have new: "set ((p @ [c]) @ [n]) \<subseteq> set (v @ fresh v (lookup g c)) \<and> hd ((p @ [c]) @ [n]) = s
       \<and> walk g ((p @ [c]) @ [n]) \<and> distinct ((p @ [c]) @ [n])"
    if "n \<in> set (fresh v (lookup g c))" for n
  proof -
    from that have n: "n \<in> set (lookup g c)" "n \<notin> set v" by (auto simp: set_fresh)
    have "n \<notin> set (p @ [c])" using n(2) hd(1) by blast
    then have "distinct ((p @ [c]) @ [n])" using hd(4) by auto
    moreover have "walk g ((p @ [c]) @ [n])" by (rule walk_snoc' [OF hd(3) n(1)])
    moreover have "hd ((p @ [c]) @ [n]) = s" by (rule hd_snoc [OF hd(2)])
    moreover have "set ((p @ [c]) @ [n]) \<subseteq> set (v @ fresh v (lookup g c))"
      using hd(1) that by auto
    ultimately show ?thesis by blast
  qed
  show ?thesis
    unfolding sound_inv_def
  proof (intro ballI, clarify)
    fix n p' assume "(n, p') \<in> set (q @ map (\<lambda>n. (n, p @ [c])) (fresh v (lookup g c)))"
    then consider "(n, p') \<in> set q" | "n \<in> set (fresh v (lookup g c))" "p' = p @ [c]"
      by auto
    then show "set (p' @ [n]) \<subseteq> set (v @ fresh v (lookup g c)) \<and> hd (p' @ [n]) = s
       \<and> walk g (p' @ [n]) \<and> distinct (p' @ [n])"
    proof cases
      case 1
      with old show ?thesis by auto
    next
      case 2
      with new [OF 2(1)] show ?thesis by simp
    qed
  qed
qed

lemma bfs_loop_sound:
  "sound_inv g s v q \<Longrightarrow> bfs_loop g e v q = Some r \<Longrightarrow>
     walk g r \<and> hd r = s \<and> last r = e \<and> distinct r"
proof (induction g e v q rule: bfs_loop.induct)
  case (1 neighbors e visited)
  then show ?case by simp
next
  case (2 neighbors e visited curr_node path queue)
  show ?case
  proof (cases "curr_node = e")
    case True
    with 2(2,3) show ?thesis by (auto simp: sound_inv_def)
  next
    case False
    let ?f = "fresh visited (lookup neighbors curr_node)"
    let ?v = "visited @ ?f"
    let ?q = "queue @ map (\<lambda>n. (n, path @ [curr_node])) ?f"
    have sc: "(?v, ?q) = scan (lookup neighbors curr_node) curr_node path (visited, queue)"
      by (simp add: scan_eq)
    have "bfs_loop neighbors e ?v ?q = Some r"
      using 2(3) False by (simp add: scan_eq)
    from 2(1) [OF False sc sound_inv_step [OF 2(2)] this] show ?thesis .
  qed
qed

lemma near_mono_Suc: "near g s k \<subseteq> near g s (Suc k)"
  by auto

lemma near_mono: "j \<le> k \<Longrightarrow> near g s j \<subseteq> near g s k"
  by (induction k) (auto simp: le_Suc_eq)

lemma near_step: "x \<in> near g s k \<Longrightarrow> y \<in> set (lookup g x) \<Longrightarrow> y \<in> near g s (Suc k)"
  by auto

lemma walk_near:
  "walk g (x # w) \<Longrightarrow> x \<in> near g s j \<Longrightarrow> last (x # w) \<in> near g s (j + length w)"
proof (induction w arbitrary: x j)
  case Nil
  then show ?case by simp
next
  case (Cons y w)
  from Cons.prems have "y \<in> set (lookup g x)" "walk g (y # w)" by simp_all
  moreover from this Cons.prems have "y \<in> near g s (Suc j)" by (intro near_step)
  ultimately have "last (y # w) \<in> near g s (Suc j + length w)" by (intro Cons.IH)
  then show ?case by simp
qed

lemma path_between_near:
  assumes "path_between g s e p"
  shows "e \<in> near g s (length p - 1)"
proof -
  from assms obtain w where p: "p = s # w"
    by (cases p) (auto simp: path_between_def)
  have "last (s # w) \<in> near g s (0 + length w)"
    using assms p by (intro walk_near) (auto simp: path_between_def)
  with assms p show ?thesis by (simp add: path_between_def)
qed

lemma level_inv_init: "level_inv g s e 0 [s] [(s, [])]"
  by (simp add: level_inv_def)

text \<open>When the head of the queue is one level deeper than \<open>k\<close>, level \<open>k\<close> is complete.\<close>

lemma level_inv_advance:
  assumes inv: "level_inv g s e k v ((c, p) # q)" and len: "length p = Suc k"
  shows "level_inv g s e (Suc k) v ((c, p) # q)"
proof -
  let ?Q = "(c, p) # q"
  from inv have ent: "\<And>n p'. (n, p') \<in> set ?Q \<Longrightarrow> n \<in> set v \<and> k \<le> length p' \<and> length p' \<le> Suc k
          \<and> (\<forall>j < length p'. n \<notin> near g s j)"
    and srt: "sorted (map (\<lambda>(n, p). length p) ?Q)"
    and nr: "near g s k \<subseteq> set v"
    and pr: "\<And>x. x \<in> set v \<Longrightarrow> x \<in> fst ` set ?Q \<or> (x \<noteq> e \<and> set (lookup g x) \<subseteq> set v)"
    and sv: "s \<in> set v"
    unfolding level_inv_def by blast+
  have deep: "length p' = Suc k" if "(n, p') \<in> set ?Q" for n p'
  proof -
    from srt that have "length p \<le> length p'" by auto
    with len ent [OF that] show ?thesis by simp
  qed
  have "near g s (Suc k) \<subseteq> set v"
  proof
    fix y assume "y \<in> near g s (Suc k)"
    then consider "y \<in> near g s k" | x where "x \<in> near g s k" "y \<in> set (lookup g x)"
      by auto
    then show "y \<in> set v"
    proof cases
      case 1
      with nr show ?thesis by blast
    next
      case 2
      from 2(1) nr have xv: "x \<in> set v" by blast
      have "x \<notin> fst ` set ?Q"
      proof
        assume "x \<in> fst ` set ?Q"
        then obtain p' where in_q: "(x, p') \<in> set ?Q" by force
        from deep [OF in_q] ent [OF in_q] have "x \<notin> near g s k" by simp
        with 2(1) show False by simp
      qed
      with pr [OF xv] 2(2) show ?thesis by blast
    qed
  qed
  moreover have "\<forall>(n, p') \<in> set ?Q. n \<in> set v \<and> Suc k \<le> length p' \<and> length p' \<le> Suc (Suc k)
          \<and> (\<forall>j < length p'. n \<notin> near g s j)"
    using ent deep by fastforce
  ultimately show ?thesis
    using srt pr sv unfolding level_inv_def by blast
qed

lemma level_inv_step:
  assumes inv: "level_inv g s e k v ((c, p) # q)" and len: "length p = k" and ce: "c \<noteq> e"
  shows "level_inv g s e k (v @ fresh v (lookup g c))
           (q @ map (\<lambda>n. (n, p @ [c])) (fresh v (lookup g c)))"
proof -
  let ?Q = "(c, p) # q"
  let ?f = "fresh v (lookup g c)"
  let ?v = "v @ ?f"
  let ?q = "q @ map (\<lambda>n. (n, p @ [c])) ?f"
  from inv have ent: "\<And>n p'. (n, p') \<in> set ?Q \<Longrightarrow> n \<in> set v \<and> k \<le> length p' \<and> length p' \<le> Suc k
          \<and> (\<forall>j < length p'. n \<notin> near g s j)"
    and srt: "sorted (map (\<lambda>(n, p). length p) ?Q)"
    and nr: "near g s k \<subseteq> set v"
    and pr: "\<And>x. x \<in> set v \<Longrightarrow> x \<in> fst ` set ?Q \<or> (x \<noteq> e \<and> set (lookup g x) \<subseteq> set v)"
    and sv: "s \<in> set v"
    unfolding level_inv_def by blast+
  have c1: "s \<in> set ?v" using sv by simp
  have c2: "\<forall>(n, p') \<in> set ?q. n \<in> set ?v \<and> k \<le> length p' \<and> length p' \<le> Suc k
          \<and> (\<forall>j < length p'. n \<notin> near g s j)"
  proof (intro ballI, clarify)
    fix n p' assume "(n, p') \<in> set ?q"
    then consider "(n, p') \<in> set q" | "n \<in> set ?f" "p' = p @ [c]" by auto
    then show "n \<in> set ?v \<and> k \<le> length p' \<and> length p' \<le> Suc k
          \<and> (\<forall>j < length p'. n \<notin> near g s j)"
    proof cases
      case 1
      then have "(n, p') \<in> set ?Q" by simp
      from ent [OF this] show ?thesis by simp
    next
      case 2
      from 2(1) have nv: "n \<notin> set v" by (simp add: set_fresh)
      have "n \<notin> near g s j" if "j < length p'" for j
      proof -
        from that 2(2) len have "j \<le> k" by simp
        from near_mono [OF this] nr nv show ?thesis by blast
      qed
      with 2 len show ?thesis by simp
    qed
  qed
  have c3: "sorted (map (\<lambda>(n, p). length p) ?q)"
  proof -
    have "sorted (map (\<lambda>(n, p). length p) q)" using srt by simp
    moreover have "\<forall>x \<in> set (map (\<lambda>(n, p). length p) q). x \<le> Suc k"
      using ent by fastforce
    moreover have "sorted (map (\<lambda>x. c') xs)" for c' :: nat and xs :: "label list"
      by (induction xs) auto
    ultimately show ?thesis
      using len by (auto simp: sorted_append comp_def)
  qed
  have c4: "near g s k \<subseteq> set ?v" using nr by auto
  have c5: "\<forall>x \<in> set ?v. x \<in> fst ` set ?q \<or> (x \<noteq> e \<and> set (lookup g x) \<subseteq> set ?v)"
  proof
    fix x assume "x \<in> set ?v"
    then consider "x \<in> set ?f" | "x \<in> set v" "x = c" | "x \<in> set v" "x \<noteq> c" by auto
    then show "x \<in> fst ` set ?q \<or> (x \<noteq> e \<and> set (lookup g x) \<subseteq> set ?v)"
    proof cases
      case 1
      then show ?thesis by force
    next
      case 2
      have "set (lookup g c) \<subseteq> set ?v" by (auto simp: set_fresh)
      with 2 ce show ?thesis by simp
    next
      case 3
      from pr [OF 3(1)] 3(2) show ?thesis by force
    qed
  qed
  from c1 c2 c3 c4 c5 show ?thesis unfolding level_inv_def by blast
qed

lemma level_inv_head:
  assumes "level_inv g s e k v ((c, p) # q)"
  shows "length p = k \<or> length p = Suc k"
  using assms unfolding level_inv_def by force

lemma level_inv_next:
  assumes inv: "level_inv g s e k v ((c, p) # q)" and ce: "c \<noteq> e"
  shows "\<exists>k'. level_inv g s e k' (v @ fresh v (lookup g c))
           (q @ map (\<lambda>n. (n, p @ [c])) (fresh v (lookup g c)))"
proof -
  from level_inv_head [OF inv] show ?thesis
  proof
    assume "length p = k"
    from level_inv_step [OF inv this ce] show ?thesis ..
  next
    assume l: "length p = Suc k"
    from level_inv_step [OF level_inv_advance [OF inv l] l ce] show ?thesis ..
  qed
qed

lemma closed_near:
  assumes "s \<in> V" and "\<And>x. x \<in> V \<Longrightarrow> set (lookup g x) \<subseteq> V"
  shows "near g s j \<subseteq> V"
  using assms by (induction j) auto

lemma bfs_loop_None:
  "level_inv g s e k v q \<Longrightarrow> bfs_loop g e v q = None \<Longrightarrow> e \<notin> near g s j"
proof (induction g e v q arbitrary: k rule: bfs_loop.induct)
  case (1 neighbors e visited)
  from 1(1) have sv: "s \<in> set visited"
    and pr: "\<And>x. x \<in> set visited \<Longrightarrow> x \<noteq> e \<and> set (lookup neighbors x) \<subseteq> set visited"
    unfolding level_inv_def by auto
  have "near neighbors s j \<subseteq> set visited"
    using sv pr by (intro closed_near) auto
  with pr show ?case by blast
next
  case (2 neighbors e visited curr_node path queue)
  from 2(3) have ne: "curr_node \<noteq> e" by (auto split: if_splits)
  let ?f = "fresh visited (lookup neighbors curr_node)"
  let ?v = "visited @ ?f"
  let ?q = "queue @ map (\<lambda>n. (n, path @ [curr_node])) ?f"
  have sc: "(?v, ?q) = scan (lookup neighbors curr_node) curr_node path (visited, queue)"
    by (simp add: scan_eq)
  have res: "bfs_loop neighbors e ?v ?q = None"
    using 2(3) ne by (simp add: scan_eq)
  from level_inv_next [OF 2(2) ne] obtain k' where "level_inv neighbors s e k' ?v ?q" ..
  from 2(1) [OF ne sc this res] show ?case .
qed

lemma bfs_loop_shortest:
  "level_inv g s e k v q \<Longrightarrow> bfs_loop g e v q = Some r \<Longrightarrow> j < length r - 1 \<Longrightarrow>
     e \<notin> near g s j"
proof (induction g e v q arbitrary: k rule: bfs_loop.induct)
  case (1 neighbors e visited)
  then show ?case by simp
next
  case (2 neighbors e visited curr_node path queue)
  show ?case
  proof (cases "curr_node = e")
    case True
    with 2(3) have r: "r = path @ [e]" by simp
    from 2(2) True have "\<forall>j < length path. e \<notin> near neighbors s j"
      unfolding level_inv_def by simp
    with r 2(4) show ?thesis by simp
  next
    case ne: False
    let ?f = "fresh visited (lookup neighbors curr_node)"
    let ?v = "visited @ ?f"
    let ?q = "queue @ map (\<lambda>n. (n, path @ [curr_node])) ?f"
    have sc: "(?v, ?q) = scan (lookup neighbors curr_node) curr_node path (visited, queue)"
      by (simp add: scan_eq)
    have res: "bfs_loop neighbors e ?v ?q = Some r"
      using 2(3) ne by (simp add: scan_eq)
    from level_inv_next [OF 2(2) ne] obtain k' where "level_inv neighbors s e k' ?v ?q" ..
    from 2(1) [OF ne sc this res 2(4)] show ?thesis .
  qed
qed

lemma walk_last_target:
  "walk g (x # y # r) \<Longrightarrow> last (x # y # r) \<in> targets g"
proof (induction r arbitrary: x y)
  case Nil
  then show ?case using lookup_targets [of g x] by auto
next
  case (Cons z r)
  from Cons.prems have "walk g (y # z # r)" by simp
  from Cons.IH [OF this] show ?case by simp
qed

lemma lookup_absent: "x \<notin> fst ` set g \<Longrightarrow> lookup g x = []"
  using map_of_eq_None_iff [of g x] by (simp add: lookup_def)

lemma no_path_absent:
  assumes "s \<noteq> e" and "\<not> present g s \<or> \<not> present g e"
  shows "\<not> path_between g s e p"
proof
  assume pb: "path_between g s e p"
  then obtain w where w: "p = s # w"
    by (cases p) (auto simp: path_between_def)
  with pb assms(1) obtain y r where "w = y # r"
    by (cases w) (auto simp: path_between_def)
  with w have p: "p = s # y # r" by simp
  from pb p have "y \<in> set (lookup g s)" by (simp add: path_between_def)
  then have "s \<in> fst ` set g" using lookup_absent [of s g] by (cases "s \<in> fst ` set g") simp_all
  moreover from pb p have "e \<in> targets g"
    using walk_last_target [of g s y r] by (simp add: path_between_def)
  ultimately show False using assms(2) by (simp add: present_def)
qed

lemma bfs_Some_path:
  assumes "bfs g s e = Some p"
  shows "path_between g s e p \<and> distinct p"
proof -
  from assms have "bfs_loop g e [s] [(s, [])] = Some p" by (simp add: bfs_def)
  from bfs_loop_sound [OF sound_inv_init this] show ?thesis by (simp add: path_between_def)
qed

text \<open>No node is put on the queue twice: what \<open>scan\<close> appends to the queue is what it
  appends to \<open>visited\<close>, and \<open>visited\<close> never holds a label twice.\<close>

lemma scan_enqueues_once:
  assumes "distinct visited" and "scan ns c p (visited, queue) = (visited', queue')"
  shows "distinct visited'
       \<and> map fst queue' = map fst queue @ drop (length visited) visited'"
proof -
  from assms(2) have v: "visited' = visited @ fresh visited ns"
    and q: "queue' = queue @ map (\<lambda>n. (n, p @ [c])) (fresh visited ns)"
    by (simp_all add: scan_eq)
  from assms(1) v have "distinct visited'"
    by (auto simp: distinct_fresh set_fresh)
  moreover have "map fst queue' = map fst queue @ drop (length visited) visited'"
    using v q by (simp add: comp_def)
  ultimately show ?thesis by blast
qed

subsection \<open>The claims about \<open>bfs\<close>\<close>

text \<open>
  C1. Whenever some path leads from \<open>start\<close> to \<open>end\<close> in the adjacency dictionary,
  \<open>bfs\<close> returns a path from \<open>start\<close> to \<open>end\<close>, and that path is no longer than any
  path between the two: its hop count is the distance of \<open>end\<close> from \<open>start\<close>.
  (That no node is queued twice is \<open>scan_enqueues_once\<close>; the loop ends for every
  input, by the termination proof of \<open>bfs_loop\<close>.)
\<close>

theorem bfs_shortest:
  assumes "path_between neighbors start end q"
  shows "\<exists>p. bfs neighbors start end = Some p \<and> path_between neighbors start end p
           \<and> length p \<le> length q"
proof -
  from path_between_near [OF assms] have nr: "end \<in> near neighbors start (length q - 1)" .
  have "bfs neighbors start end \<noteq> None"
  proof
    assume "bfs neighbors start end = None"
    then have "bfs_loop neighbors end [start] [(start, [])] = None" by (simp add: bfs_def)
    from bfs_loop_None [OF level_inv_init this] nr show False by blast
  qed
  then obtain p where p: "bfs_loop neighbors end [start] [(start, [])] = Some p"
    by (auto simp: bfs_def)
  from bfs_loop_sound [OF sound_inv_init p] have pb: "path_between neighbors start end p"
    by (simp add: path_between_def)
  have "\<not> length q - 1 < length p - 1"
    using bfs_loop_shortest [OF level_inv_init p] nr by blast
  moreover from assms have "q \<noteq> []" by (auto simp: path_between_def)
  ultimately have "length p \<le> length q" by (cases q) auto
  with p pb show ?thesis by (simp add: bfs_def)
qed

theorem bfs_shortest_witness:
  "path_between example_graph ''Ashmont'' ''Arlington''
      [''Ashmont'', ''Red'', ''Park'', ''Green'', ''Arlington'']
   \<and> (\<exists>p. bfs example_graph ''Ashmont'' ''Arlington'' = Some p
          \<and> path_between example_graph ''Ashmont'' ''Arlington'' p \<and> length p \<le> 5)"
proof -
  have h: "path_between example_graph ''Ashmont'' ''Arlington''
      [''Ashmont'', ''Red'', ''Park'', ''Green'', ''Arlington'']"
    by (simp add: path_between_def example_graph_def lookup_def)
  from bfs_shortest [OF h] h show ?thesis by (simp add: eval_nat_numeral)
qed

text \<open>
  C2, as the code has it. For two different labels, \<open>bfs\<close> returns \<open>None\<close> when
  \<open>start\<close> or \<open>end\<close> is present nowhere in the adjacency dictionary, and when no path
  leads from \<open>start\<close> to \<open>end\<close>. (For \<open>start = end\<close> it returns the one-element path
  whether the label is present or not.)
\<close>

theorem bfs_not_found:
  assumes "start \<noteq> end"
    and "\<not> present neighbors start \<or> \<not> present neighbors end
         \<or> \<not> (\<exists>p. path_between neighbors start end p)"
  shows "bfs neighbors start end = None"
proof (cases "bfs neighbors start end")
  case None
  then show ?thesis .
next
  case (Some p)
  from bfs_Some_path [OF Some] have pb: "path_between neighbors start end p" ..
  from assms(2) no_path_absent [OF assms(1), of neighbors p] pb show ?thesis by blast
qed

theorem bfs_not_found_witness:
  "''Ashmont'' \<noteq> ''Kendall'' \<and> \<not> present example_graph ''Kendall''
   \<and> bfs example_graph ''Ashmont'' ''Kendall'' = None"
proof -
  have a: "''Ashmont'' \<noteq> ''Kendall''" by simp
  have b: "\<not> present example_graph ''Kendall''"
    by (simp add: present_def targets_def example_graph_def)
  then have c: "\<not> present example_graph ''Ashmont'' \<or> \<not> present example_graph ''Kendall''
         \<or> \<not> (\<exists>p. path_between example_graph ''Ashmont'' ''Kendall'' p)" by simp
  from bfs_not_found [OF a c] a b show ?thesis by simp
qed

text \<open>
  C2, as stated, fails for \<open>start = end\<close>: Kendall is present nowhere in the example
  network, and \<open>bfs\<close> from Kendall to Kendall returns the path \<open>[Kendall]\<close>, not \<open>None\<close>.
\<close>

theorem bfs_absent_same_counterexample:
  "\<not> present example_graph ''Kendall''
   \<and> bfs example_graph ''Kendall'' ''Kendall'' = Some [''Kendall'']"
  by (simp add: present_def targets_def example_graph_def bfs_def)

text \<open>
  C8. With \<open>start\<close> and \<open>end\<close> the same label \<open>X\<close>, \<open>bfs\<close> returns the one-element
  path \<open>[X]\<close>: the seed of the queue is taken off and matches \<open>end\<close> at once. This holds
  for every adjacency dictionary and every label, present in it or not.
\<close>

theorem bfs_same_node: "bfs neighbors x x = Some [x]"
  by (simp add: bfs_def)

text \<open>
  C10. A list returned by \<open>bfs\<close> is a path of the adjacency dictionary: it is not empty,
  it starts with \<open>start\<close> and ends with \<open>end\<close>, every element after the first is a
  neighbour of the element before it, and no label occurs in it twice.
\<close>

theorem bfs_returns_path:
  assumes "bfs neighbors start end = Some p"
  shows "p \<noteq> [] \<and> hd p = start \<and> last p = end \<and> walk neighbors p \<and> distinct p"
proof -
  from assms have "bfs_loop neighbors end [start] [(start, [])] = Some p"
    by (simp add: bfs_def)
  from bfs_loop_sound [OF sound_inv_init this]
  have w: "walk neighbors p" and rest: "hd p = start" "last p = end" "distinct p" by simp_all
  from w have "p \<noteq> []" by (cases p) auto
  with w rest show ?thesis by simp
qed

theorem bfs_returns_path_witness:
  "bfs example_graph ''Ashmont'' ''Arlington'' = Some [''Ashmont'', ''Red'', ''Arlington'']
   \<and> hd [''Ashmont'', ''Red'', ''Arlington''] = ''Ashmont''
   \<and> last [''Ashmont'', ''Red'', ''Arlington''] = ''Arlington''
   \<and> walk example_graph [''Ashmont'', ''Red'', ''Arlington'']
   \<and> distinct [''Ashmont'', ''Red'', ''Arlington'']"
proof -
  have h: "bfs example_graph ''Ashmont'' ''Arlington'' = Some [''Ashmont'', ''Red'', ''Arlington'']"
    by (simp add: bfs_def example_graph_def lookup_def)
  from bfs_returns_path [OF h] h show ?thesis by simp
qed

section \<open>Properties of the route statistics\<close>

lemma num_stops_key:
  "val \<in> fst ` set m \<Longrightarrow> \<exists>stops. map_of m val = Some stops \<and> num_stops m val = Inr (length stops)"
proof -
  assume "val \<in> fst ` set m"
  then obtain stops where "map_of m val = Some stops"
    using map_of_eq_None_iff [of m val] by (cases "map_of m val") auto
  then show ?thesis by (simp add: num_stops_def)
qed

lemma num_stops_Inr: "num_stops m val = Inr n \<Longrightarrow> \<exists>stops. map_of m val = Some stops \<and> n = length stops"
  by (auto simp: num_stops_def split: option.splits)

lemma min_loop_spec:
  assumes "set vals \<subseteq> fst ` set m" and "num_stops m best = Inr best_n"
  shows "\<exists>r n. min_loop m best best_n vals = Inr r \<and> num_stops m r = Inr n \<and> n \<le> best_n
           \<and> (\<forall>v \<in> set vals. \<forall>k. num_stops m v = Inr k \<longrightarrow> n \<le> k)"
  using assms
proof (induction vals arbitrary: best best_n)
  case Nil
  then show ?case by simp
next
  case (Cons val vals)
  from Cons.prems(1) have "val \<in> fst ` set m" by simp
  from num_stops_key [OF this] obtain k where k: "num_stops m val = Inr k" by blast
  from Cons.prems(1) have sub: "set vals \<subseteq> fst ` set m" by simp
  show ?case
  proof (cases "k < best_n")
    case True
    from Cons.IH [OF sub k] obtain r n where
      "min_loop m val k vals = Inr r" "num_stops m r = Inr n" "n \<le> k"
      "\<forall>v \<in> set vals. \<forall>k. num_stops m v = Inr k \<longrightarrow> n \<le> k" by blast
    with True k show ?thesis by auto
  next
    case False
    from Cons.IH [OF sub Cons.prems(2)] obtain r n where
      "min_loop m best best_n vals = Inr r" "num_stops m r = Inr n" "n \<le> best_n"
      "\<forall>v \<in> set vals. \<forall>k. num_stops m v = Inr k \<longrightarrow> n \<le> k" by blast
    with False k show ?thesis by auto
  qed
qed

lemma max_loop_spec:
  assumes "set vals \<subseteq> fst ` set m" and "num_stops m best = Inr best_n"
  shows "\<exists>r n. max_loop m best best_n vals = Inr r \<and> num_stops m r = Inr n \<and> best_n \<le> n
           \<and> (\<forall>v \<in> set vals. \<forall>k. num_stops m v = Inr k \<longrightarrow> k \<le> n)"
  using assms
proof (induction vals arbitrary: best best_n)
  case Nil
  then show ?case by simp
next
  case (Cons val vals)
  from Cons.prems(1) have "val \<in> fst ` set m" by simp
  from num_stops_key [OF this] obtain k where k: "num_stops m val = Inr k" by blast
  from Cons.prems(1) have sub: "set vals \<subseteq> fst ` set m" by simp
  show ?case
  proof (cases "k > best_n")
    case True
    from Cons.IH [OF sub k] obtain r n where
      "max_loop m val k vals = Inr r" "num_stops m r = Inr n" "k \<le> n"
      "\<forall>v \<in> set vals. \<forall>k. num_stops m v = Inr k \<longrightarrow> k \<le> n" by blast
    with True k show ?thesis by auto
  next
    case False
    from Cons.IH [OF sub Cons.prems(2)] obtain r n where
      "max_loop m best best_n vals = Inr r" "num_stops m r = Inr n" "best_n \<le> n"
      "\<forall>v \<in> set vals. \<forall>k. num_stops m v = Inr k \<longrightarrow> k \<le> n" by blast
    with False k show ?thesis by auto
  qed
qed

lemma least_stops_spec:
  assumes "m \<noteq> []"
  shows "\<exists>r stops. route_with_least_stops m = Inr (r, length stops) \<and> map_of m r = Some stops
           \<and> (\<forall>r' stops'. map_of m r' = Some stops' \<longrightarrow> length stops \<le> length stops')"
proof -
  from assms obtain val v rest where m: "m = (val, v) # rest" by (cases m) auto
  then have keys: "map fst m = val # map fst rest" by simp
  have "val \<in> fst ` set m" using m by simp
  from num_stops_key [OF this] obtain k where k: "num_stops m val = Inr k" by blast
  have sub: "set (map fst rest) \<subseteq> fst ` set m" using m by auto
  from min_loop_spec [OF sub k] obtain r n where
    r: "min_loop m val k (map fst rest) = Inr r" "num_stops m r = Inr n" "n \<le> k"
    "\<forall>v \<in> set (map fst rest). \<forall>k. num_stops m v = Inr k \<longrightarrow> n \<le> k" by blast
  from num_stops_Inr [OF r(2)] obtain stops where st: "map_of m r = Some stops" "n = length stops"
    by blast
  have res: "route_with_least_stops m = Inr (r, length stops)"
    using keys k r(1,2) st(2) by (simp add: route_with_least_stops_def min_route_def)
  have "length stops \<le> length stops'" if "map_of m r' = Some stops'" for r' stops'
  proof -
    from that have ns: "num_stops m r' = Inr (length stops')" by (simp add: num_stops_def)
    from that have "r' \<in> fst ` set m" using map_of_eq_None_iff [of m r'] by auto
    then have "r' = val \<or> r' \<in> set (map fst rest)" using m by auto
    then show ?thesis
    proof
      assume "r' = val"
      with ns k r(3) st(2) show ?thesis by simp
    next
      assume "r' \<in> set (map fst rest)"
      with r(4) ns st(2) show ?thesis by blast
    qed
  qed
  with res st(1) show ?thesis by blast
qed

lemma most_stops_spec:
  assumes "m \<noteq> []"
  shows "\<exists>r stops. route_with_most_stops m = Inr (r, length stops) \<and> map_of m r = Some stops
           \<and> (\<forall>r' stops'. map_of m r' = Some stops' \<longrightarrow> length stops' \<le> length stops)"
proof -
  from assms obtain val v rest where m: "m = (val, v) # rest" by (cases m) auto
  then have keys: "map fst m = val # map fst rest" by simp
  have "val \<in> fst ` set m" using m by simp
  from num_stops_key [OF this] obtain k where k: "num_stops m val = Inr k" by blast
  have sub: "set (map fst rest) \<subseteq> fst ` set m" using m by auto
  from max_loop_spec [OF sub k] obtain r n where
    r: "max_loop m val k (map fst rest) = Inr r" "num_stops m r = Inr n" "k \<le> n"
    "\<forall>v \<in> set (map fst rest). \<forall>k. num_stops m v = Inr k \<longrightarrow> k \<le> n" by blast
  from num_stops_Inr [OF r(2)] obtain stops where st: "map_of m r = Some stops" "n = length stops"
    by blast
  have res: "route_with_most_stops m = Inr (r, length stops)"
    using keys k r(1,2) st(2) by (simp add: route_with_most_stops_def max_route_def)
  have "length stops' \<le> length stops" if "map_of m r' = Some stops'" for r' stops'
  proof -
    from that have ns: "num_stops m r' = Inr (length stops')" by (simp add: num_stops_def)
    from that have "r' \<in> fst ` set m" using map_of_eq_None_iff [of m r'] by auto
    then have "r' = val \<or> r' \<in> set (map fst rest)" using m by auto
    then show ?thesis
    proof
      assume "r' = val"
      with ns k r(3) st(2) show ?thesis by simp
    next
      assume "r' \<in> set (map fst rest)"
      with r(4) ns st(2) show ?thesis by blast
    qed
  qed
  with res st(1) show ?thesis by blast
qed

lemma transfer_stops_filter:
  "transfer_stops m = filter (\<lambda>(stop, routes). 2 \<le> length routes) m"
  by (induction m rule: transfer_stops.induct) auto

text \<open>A service without routes leaves both statistics nothing to compare.\<close>

lemma no_routes_raises:
  "fst (compute_route_with_least_stops empty_source init_state) = Inl ValueError
   \<and> fst (compute_route_with_most_stops empty_source init_state) = Inl ValueError"
  by (simp add: compute_route_with_least_stops_def compute_route_with_most_stops_def
      get_route_to_stops_def empty_source_def fetch_defs route_with_least_stops_def
      route_with_most_stops_def min_route_def max_route_def)

subsection \<open>The claims about the statistics\<close>

text \<open>
  C3, as the code has it. The transfer-stop listing reports exactly the stops whose list
  of routes has two or more entries, each with that list, in the order of the
  dictionary. When no list of routes names a route twice, these are the stops served by
  two or more distinct routes. For \<open>{"Park": ["Red", "Green"], "Wood": ["Red"]}\<close> the
  listing is \<open>[("Park", ["Red", "Green"])]\<close>.
\<close>

theorem transfer_stops_distinct_routes:
  assumes "\<forall>(stop, routes) \<in> set stop_to_routes. distinct routes"
  shows "transfer_stops stop_to_routes
           = filter (\<lambda>(stop, routes). 2 \<le> card (set routes)) stop_to_routes
         \<and> transfer_stops [(''Park'', [''Red'', ''Green'']), (''Wood'', [''Red''])]
           = [(''Park'', [''Red'', ''Green''])]"
proof -
  have "filter (\<lambda>(stop, routes). 2 \<le> length routes) stop_to_routes
      = filter (\<lambda>(stop, routes). 2 \<le> card (set routes)) stop_to_routes"
    using assms by (intro filter_cong) (auto simp: distinct_card)
  then show ?thesis by (simp add: transfer_stops_filter)
qed

theorem transfer_stops_distinct_routes_witness:
  "distinct [''Red'', ''Green''] \<and> distinct [''Red'']
   \<and> transfer_stops [(''Park'', [''Red'', ''Green'']), (''Wood'', [''Red''])]
       = filter (\<lambda>(stop, routes). 2 \<le> card (set routes))
           [(''Park'', [''Red'', ''Green'']), (''Wood'', [''Red''])]
   \<and> transfer_stops [(''Park'', [''Red'', ''Green'']), (''Wood'', [''Red''])]
       = [(''Park'', [''Red'', ''Green''])]"
proof -
  have h: "\<forall>(stop, routes) \<in> set [(''Park'', [''Red'', ''Green'']), (''Wood'', [''Red''])].
      distinct routes" by simp
  have d: "distinct [''Red'', ''Green''] \<and> distinct [''Red'']" by simp
  from transfer_stops_distinct_routes [OF h] d show ?thesis by blast
qed

text \<open>
  C3, as stated, fails when a list of routes has a repeated entry. Over the service whose
  Red line lists Park three times, \<open>get_stop_to_routes\<close> maps Park to
  \<open>["Red", "Red", "Red"]\<close>, and Park is reported as a transfer stop with that list,
  though a single route serves it.
\<close>

theorem transfer_stops_repeated_route_counterexample:
  "fst (get_stop_to_routes repeating_source init_state)
     = Inr [(''Park'', [''Red'', ''Red'', ''Red'']), (''Airport'', [''Blue'']),
            (''Maverick'', [''Blue''])]
   \<and> transfer_stops [(''Park'', [''Red'', ''Red'', ''Red'']), (''Airport'', [''Blue'']),
            (''Maverick'', [''Blue''])]
     = [(''Park'', [''Red'', ''Red'', ''Red''])]
   \<and> card (set [''Red'', ''Red'', ''Red'']) = 1"
  by (simp add: get_stop_to_routes_def repeating_source_def fetch_defs)

text \<open>
  C4, as the code has it. On a non-empty dictionary of routes,
  \<open>route_with_least_stops\<close> returns a route whose list of stops is shortest, with the
  length of that list, and \<open>route_with_most_stops\<close> a route whose list is longest, with
  its length. When no list of stops names a stop twice, the length is the number of
  distinct stops, so the routes returned have the fewest and the most distinct stops.
  For \<open>{"Red": [a, b, c], "Blue": [a, b]}\<close> the results are \<open>("Blue", 2)\<close> and
  \<open>("Red", 3)\<close>.
\<close>

theorem fewest_and_most_stops:
  assumes "route_to_stops \<noteq> []"
    and "\<forall>(route, stops) \<in> set route_to_stops. distinct stops"
  shows "(\<exists>r stops. route_with_least_stops route_to_stops = Inr (r, card (set stops))
            \<and> map_of route_to_stops r = Some stops
            \<and> (\<forall>r' stops'. map_of route_to_stops r' = Some stops'
                  \<longrightarrow> card (set stops) \<le> card (set stops')))
       \<and> (\<exists>r stops. route_with_most_stops route_to_stops = Inr (r, card (set stops))
            \<and> map_of route_to_stops r = Some stops
            \<and> (\<forall>r' stops'. map_of route_to_stops r' = Some stops'
                  \<longrightarrow> card (set stops') \<le> card (set stops)))
       \<and> route_with_least_stops [(''Red'', [a, b, c]), (''Blue'', [a, b])] = Inr (''Blue'', 2)
       \<and> route_with_most_stops [(''Red'', [a, b, c]), (''Blue'', [a, b])] = Inr (''Red'', 3)"
proof -
  have len: "length stops = card (set stops)" if "map_of route_to_stops r = Some stops"
    for r stops
    using assms(2) map_of_SomeD [OF that] by (auto simp: distinct_card)
  from least_stops_spec [OF assms(1)] obtain r stops where
    l: "route_with_least_stops route_to_stops = Inr (r, length stops)"
       "map_of route_to_stops r = Some stops"
       "\<forall>r' stops'. map_of route_to_stops r' = Some stops' \<longrightarrow> length stops \<le> length stops'"
    by blast
  have least: "\<exists>r stops. route_with_least_stops route_to_stops = Inr (r, card (set stops))
            \<and> map_of route_to_stops r = Some stops
            \<and> (\<forall>r' stops'. map_of route_to_stops r' = Some stops'
                  \<longrightarrow> card (set stops) \<le> card (set stops'))"
  proof (intro exI conjI allI impI)
    show "route_with_least_stops route_to_stops = Inr (r, card (set stops))"
      using l(1) len [OF l(2)] by simp
    show "map_of route_to_stops r = Some stops" by (rule l(2))
    fix r' stops' assume a: "map_of route_to_stops r' = Some stops'"
    with l(3) have "length stops \<le> length stops'" by blast
    then show "card (set stops) \<le> card (set stops')" using len [OF l(2)] len [OF a] by simp
  qed
  from most_stops_spec [OF assms(1)] obtain r stops where
    m: "route_with_most_stops route_to_stops = Inr (r, length stops)"
       "map_of route_to_stops r = Some stops"
       "\<forall>r' stops'. map_of route_to_stops r' = Some stops' \<longrightarrow> length stops' \<le> length stops"
    by blast
  have most: "\<exists>r stops. route_with_most_stops route_to_stops = Inr (r, card (set stops))
            \<and> map_of route_to_stops r = Some stops
            \<and> (\<forall>r' stops'. map_of route_to_stops r' = Some stops'
                  \<longrightarrow> card (set stops') \<le> card (set stops))"
  proof (intro exI conjI allI impI)
    show "route_with_most_stops route_to_stops = Inr (r, card (set stops))"
      using m(1) len [OF m(2)] by simp
    show "map_of route_to_stops r = Some stops" by (rule m(2))
    fix r' stops' assume a: "map_of route_to_stops r' = Some stops'"
    with m(3) have "length stops' \<le> length stops" by blast
    then show "card (set stops') \<le> card (set stops)" using len [OF m(2)] len [OF a] by simp
  qed
  have ex1: "route_with_least_stops [(''Red'', [a, b, c]), (''Blue'', [a, b])] = Inr (''Blue'', 2)"
    by (simp add: route_with_least_stops_def min_route_def num_stops_def)
  have ex2: "route_with_most_stops [(''Red'', [a, b, c]), (''Blue'', [a, b])] = Inr (''Red'', 3)"
    by (simp add: route_with_most_stops_def max_route_def num_stops_def)
  from least most ex1 ex2 show ?thesis by blast
qed

theorem fewest_and_most_stops_witness:
  "[(''Red'', [''Ashmont'', ''Park'', ''Arlington'']), (''Blue'', [''Ashmont'', ''Park''])] \<noteq> []
   \<and> distinct [''Ashmont'', ''Park'', ''Arlington''] \<and> distinct [''Ashmont'', ''Park'']
   \<and> route_with_least_stops
        [(''Red'', [''Ashmont'', ''Park'', ''Arlington'']), (''Blue'', [''Ashmont'', ''Park''])]
       = Inr (''Blue'', 2)
   \<and> route_with_most_stops
        [(''Red'', [''Ashmont'', ''Park'', ''Arlington'']), (''Blue'', [''Ashmont'', ''Park''])]
       = Inr (''Red'', 3)"
proof -
  let ?m = "[(''Red'', [''Ashmont'', ''Park'', ''Arlington'']), (''Blue'', [''Ashmont'', ''Park''])]"
  have h1: "?m \<noteq> []" by simp
  have h2: "\<forall>(route, stops) \<in> set ?m. distinct stops" by simp
  have d: "distinct [''Ashmont'', ''Park'', ''Arlington''] \<and> distinct [''Ashmont'', ''Park'']"
    by simp
  from fewest_and_most_stops [OF h1 h2, of "''Ashmont''" "''Park''" "''Arlington''"] h1 d
  show ?thesis by blast
qed

text \<open>
  C4, as stated, fails when a list of stops has a repeated entry. Over the service whose
  Red line lists Park three times, \<open>get_route_to_stops\<close> maps Red to
  \<open>["Park", "Park", "Park"]\<close>: Red has one distinct stop and Blue two, and yet Blue is
  returned as the route with the least stops, and Red, with the count 3, as the route
  with the most.
\<close>

theorem fewest_stops_repeated_stop_counterexample:
  "fst (get_route_to_stops repeating_source init_state)
     = Inr [(''Red'', [''Park'', ''Park'', ''Park'']), (''Blue'', [''Airport'', ''Maverick''])]
   \<and> route_with_least_stops
       [(''Red'', [''Park'', ''Park'', ''Park'']), (''Blue'', [''Airport'', ''Maverick''])]
     = Inr (''Blue'', 2)
   \<and> route_with_most_stops
       [(''Red'', [''Park'', ''Park'', ''Park'']), (''Blue'', [''Airport'', ''Maverick''])]
     = Inr (''Red'', 3)
   \<and> card (set [''Park'', ''Park'', ''Park'']) = 1
   \<and> card (set [''Airport'', ''Maverick'']) = 2"
  by (simp add: get_route_to_stops_def repeating_source_def fetch_defs
      route_with_least_stops_def min_route_def route_with_most_stops_def
      max_route_def num_stops_def)

text \<open>
  C9. On the empty dictionary \<open>min\<close> and \<open>max\<close> raise \<open>ValueError\<close>, so each of the two
  operations fails; on a dictionary with at least one route each returns a route and a
  count, and raises nothing.
\<close>

theorem least_most_stops_empty_iff:
  "route_with_least_stops [] = Inl ValueError
   \<and> route_with_most_stops [] = Inl ValueError
   \<and> (\<exists>r n. route_with_least_stops (entry # route_to_stops) = Inr (r, n))
   \<and> (\<exists>r n. route_with_most_stops (entry # route_to_stops) = Inr (r, n))"
proof -
  have ne: "entry # route_to_stops \<noteq> []" by simp
  from least_stops_spec [OF ne] most_stops_spec [OF ne]
  show ?thesis
    by (auto simp: route_with_least_stops_def min_route_def route_with_most_stops_def
        max_route_def)
qed

end
